theory Spec2Isabelle
  imports Complex_Main
begin

section \<open>Conversion of binary-fit parameters in the NIRISS AMI binary notebook\<close>

text \<open>
  The notebook defines two pure functions, \<^verbatim>\<open>mag_diff\<close> and \<^verbatim>\<open>convert_params\<close>:
  \<^verbatim>\<open>
  def mag_diff(flux_ratio):
      return -2.5 * np.log10(flux_ratio)

  def convert_params(x, y, f, ex, ey, ef, sigma=1):
      sep = np.sqrt(x**2 + y**2)
      pa = 360 + np.rad2deg(np.arctan2(x, y))
      dm = mag_diff(f)
      sep_unc = np.sqrt((x/sep*ex)**2+(y/sep*ey)**2) * sigma
      pa_unc = np.rad2deg(np.sqrt((y/sep**2*ex)**2+(-x/sep**2*ey)**2)) * sigma
      dm_upper = mag_diff(f + ef*sigma)
      dm_lower = mag_diff(f - ef*sigma)
      return sep, pa, dm, sep_unc, pa_unc, dm_upper, dm_lower
  \<close>
  The notebook calls \<^verbatim>\<open>convert_params\<close> on entries of NumPy arrays, so every operation
  is an operation of IEEE 754 binary64 (\<^verbatim>\<open>np.float64\<close>), under NumPy's default error
  state: a division by zero, an overflow or an invalid operation gives an infinity or
  \<^verbatim>\<open>nan\<close> (with a RuntimeWarning) and the computation goes on.

  The model follows that arithmetic. A value is a finite real number or one of the
  three special values; every operation computes the exact real result and rounds it to
  the nearest binary64 number, ties to even, with gradual underflow and with overflow
  to an infinity. Three things are idealised, and the properties below are read with
  them in mind:
  \<^item> the library functions \<^verbatim>\<open>np.sqrt\<close>, \<^verbatim>\<open>np.log10\<close> and \<^verbatim>\<open>np.arctan2\<close> are taken to be
    correctly rounded (IEEE 754 requires it of the square root only; the others are
    accurate to about one unit in the last place in practice);
  \<^item> the two zeros of binary64 are one value, so \<^verbatim>\<open>np.arctan2(-0.0, y)\<close> for negative \<^verbatim>\<open>y\<close>,
    which is \<^verbatim>\<open>-pi\<close> in NumPy, is not distinguished from \<^verbatim>\<open>np.arctan2(0.0, y)\<close>;
  \<^item> the arguments of \<^verbatim>\<open>convert_params\<close> are finite and are given as the real numbers
    they denote; a property that needs an argument to be a binary64 number says so
    with \<open>is_double\<close>.
\<close>

subsection \<open>Binary64 values and rounding\<close>

datatype special = PosInf | NegInf | NaN

type_synonym npfloat = "special + real"

definition pow2 :: "int \<Rightarrow> real" where
  "pow2 e = 2 powr (of_int e)"

text \<open>Rounding of a real to the nearest integer, a tie going to the even neighbour.\<close>

definition rne :: "real \<Rightarrow> int" where
  "rne t =
     (let n = \<lfloor>t\<rfloor>; d = t - of_int n
      in if d < 1 / 2 then n
         else if 1 / 2 < d then n + 1
         else if even n then n else n + 1)"

text \<open>
  The exponent of the unit in the last place of a real \<open>r\<close>: a binary64 significand has
  53 bits, and below \<open>2\<^sup>-\<^sup>1\<^sup>0\<^sup>2\<^sup>2\<close> the spacing stays at \<open>2\<^sup>-\<^sup>1\<^sup>0\<^sup>7\<^sup>4\<close> (subnormal numbers).
\<close>

definition ulp_exp :: "real \<Rightarrow> int" where
  "ulp_exp r = max (\<lfloor>log 2 \<bar>r\<bar>\<rfloor> - 52) (- 1074)"

definition rval :: "real \<Rightarrow> real" where
  "rval r = (if r = 0 then 0 else of_int (rne (r / pow2 (ulp_exp r))) * pow2 (ulp_exp r))"

text \<open>
  Rounding to binary64: the largest finite number is \<open>2\<^sup>1\<^sup>0\<^sup>2\<^sup>4 - 2\<^sup>9\<^sup>7\<^sup>1\<close>, and a real that
  rounds to \<open>2\<^sup>1\<^sup>0\<^sup>2\<^sup>4\<close> or beyond in magnitude overflows to the infinity of its sign.
\<close>

definition round64 :: "real \<Rightarrow> npfloat" where
  "round64 r =
     (if 2 ^ 1024 \<le> \<bar>rval r\<bar> then Inl (if 0 < r then PosInf else NegInf)
      else Inr (rval r))"

definition is_double :: "real \<Rightarrow> bool" where
  "is_double r \<longleftrightarrow> round64 r = Inr r"

subsection \<open>Arithmetic of NumPy scalars\<close>

text \<open>
  The operators \<^verbatim>\<open>-a\<close>, \<^verbatim>\<open>a + b\<close>, \<^verbatim>\<open>a - b\<close>, \<^verbatim>\<open>a * b\<close>, \<^verbatim>\<open>a ** 2\<close> and \<^verbatim>\<open>a / b\<close> with the
  IEEE 754 rules for infinities and \<^verbatim>\<open>nan\<close>. NumPy computes \<^verbatim>\<open>a ** 2\<close> as \<^verbatim>\<open>a * a\<close>.
  A finite nonzero number divided by zero is an infinity, and \<^verbatim>\<open>0 / 0\<close> is \<^verbatim>\<open>nan\<close>.
\<close>

fun fneg :: "npfloat \<Rightarrow> npfloat" where
  "fneg (Inr a) = Inr (- a)"
| "fneg (Inl PosInf) = Inl NegInf"
| "fneg (Inl NegInf) = Inl PosInf"
| "fneg (Inl NaN) = Inl NaN"

fun fadd :: "npfloat \<Rightarrow> npfloat \<Rightarrow> npfloat" where
  "fadd (Inr a) (Inr b) = round64 (a + b)"
| "fadd (Inl NaN) _ = Inl NaN"
| "fadd _ (Inl NaN) = Inl NaN"
| "fadd (Inl PosInf) (Inl NegInf) = Inl NaN"
| "fadd (Inl NegInf) (Inl PosInf) = Inl NaN"
| "fadd (Inl i) _ = Inl i"
| "fadd _ (Inl i) = Inl i"

definition fsub :: "npfloat \<Rightarrow> npfloat \<Rightarrow> npfloat" where
  "fsub a b = fadd a (fneg b)"

fun fmul :: "npfloat \<Rightarrow> npfloat \<Rightarrow> npfloat" where
  "fmul (Inr a) (Inr b) = round64 (a * b)"
| "fmul (Inl NaN) _ = Inl NaN"
| "fmul _ (Inl NaN) = Inl NaN"
| "fmul (Inl i) (Inr b) = (if b = 0 then Inl NaN else if 0 < b then Inl i else fneg (Inl i))"
| "fmul (Inr a) (Inl i) = (if a = 0 then Inl NaN else if 0 < a then Inl i else fneg (Inl i))"
| "fmul (Inl i) (Inl j) = (if i = j then Inl PosInf else Inl NegInf)"

definition fsquare :: "npfloat \<Rightarrow> npfloat" where
  "fsquare a = fmul a a"

fun fdiv :: "npfloat \<Rightarrow> npfloat \<Rightarrow> npfloat" where
  "fdiv (Inr a) (Inr b) =
     (if b = 0 then (if a = 0 then Inl NaN else if 0 < a then Inl PosInf else Inl NegInf)
      else round64 (a / b))"
| "fdiv (Inl NaN) _ = Inl NaN"
| "fdiv _ (Inl NaN) = Inl NaN"
| "fdiv (Inl i) (Inl j) = Inl NaN"
| "fdiv (Inr a) (Inl j) = Inr 0"
| "fdiv (Inl i) (Inr b) = (if 0 \<le> b then Inl i else fneg (Inl i))"

text \<open>The comparison \<^verbatim>\<open>a <= b\<close>: false when either side is \<^verbatim>\<open>nan\<close>.\<close>

fun fle :: "npfloat \<Rightarrow> npfloat \<Rightarrow> bool" where
  "fle (Inr a) (Inr b) \<longleftrightarrow> a \<le> b"
| "fle (Inl NaN) _ \<longleftrightarrow> False"
| "fle _ (Inl NaN) \<longleftrightarrow> False"
| "fle (Inl NegInf) _ \<longleftrightarrow> True"
| "fle _ (Inl PosInf) \<longleftrightarrow> True"
| "fle _ _ \<longleftrightarrow> False"

subsection \<open>NumPy functions\<close>

text \<open>
  \<^verbatim>\<open>np.sqrt\<close> of a negative number is \<^verbatim>\<open>nan\<close>; \<^verbatim>\<open>np.log10(0)\<close> is \<^verbatim>\<open>-inf\<close> and \<^verbatim>\<open>np.log10\<close> of
  a negative number is \<^verbatim>\<open>nan\<close>.
\<close>

fun np_sqrt :: "npfloat \<Rightarrow> npfloat" where
  "np_sqrt (Inr a) = (if a < 0 then Inl NaN else round64 (sqrt a))"
| "np_sqrt (Inl PosInf) = Inl PosInf"
| "np_sqrt (Inl NegInf) = Inl NaN"
| "np_sqrt (Inl NaN) = Inl NaN"

fun np_log10 :: "npfloat \<Rightarrow> npfloat" where
  "np_log10 (Inr a) =
     (if a < 0 then Inl NaN else if a = 0 then Inl NegInf else round64 (log 10 a))"
| "np_log10 (Inl PosInf) = Inl PosInf"
| "np_log10 (Inl NegInf) = Inl NaN"
| "np_log10 (Inl NaN) = Inl NaN"

text \<open>
  The angle of the point with abscissa \<open>x2\<close> and ordinate \<open>x1\<close>, in \<open>(- pi, pi]\<close>, with
  \<open>arctan2 0 0 = 0\<close>; \<^verbatim>\<open>np.arctan2(x1, x2)\<close> is its rounding.
\<close>

definition arctan2 :: "real \<Rightarrow> real \<Rightarrow> real" where
  "arctan2 x1 x2 =
     (if 0 < x2 then arctan (x1 / x2)
      else if x2 < 0 then (if 0 \<le> x1 then arctan (x1 / x2) + pi else arctan (x1 / x2) - pi)
      else if 0 < x1 then pi / 2
      else if x1 < 0 then - (pi / 2)
      else 0)"

definition np_arctan2 :: "real \<Rightarrow> real \<Rightarrow> npfloat" where
  "np_arctan2 x1 x2 = round64 (arctan2 x1 x2)"

text \<open>
  NumPy computes \<^verbatim>\<open>np.rad2deg(a)\<close> as \<^verbatim>\<open>a * (180.0 / NPY_PI)\<close>, where \<^verbatim>\<open>NPY_PI\<close> is the
  binary64 number nearest to \<open>pi\<close>.
\<close>

definition np_rad2deg :: "npfloat \<Rightarrow> npfloat" where
  "np_rad2deg a = fmul a (fdiv (Inr 180) (round64 pi))"

text \<open>
  The exact conversion from degrees to radians; it is not part of the notebook's
  functions and serves to state the round trip, whose angle is given in degrees.
\<close>

definition np_deg2rad :: "real \<Rightarrow> real" where
  "np_deg2rad d = d * (pi / 180)"

subsection \<open>The functions of the notebook\<close>

definition mag_diff :: "npfloat \<Rightarrow> npfloat" where
  "mag_diff flux_ratio = fmul (Inr (- 2.5)) (np_log10 flux_ratio)"

record params =
  sep :: npfloat
  pa :: npfloat
  dm :: npfloat
  sep_unc :: npfloat
  pa_unc :: npfloat
  dm_upper :: npfloat
  dm_lower :: npfloat

definition convert_params ::
  "real \<Rightarrow> real \<Rightarrow> real \<Rightarrow> real \<Rightarrow> real \<Rightarrow> real \<Rightarrow> real \<Rightarrow> params" where
  "convert_params x y f ex ey ef sigma =
     (let sep_v = np_sqrt (fadd (fsquare (Inr x)) (fsquare (Inr y)));
          pa_v = fadd (Inr 360) (np_rad2deg (np_arctan2 x y));
          dm_v = mag_diff (Inr f);
          sep_unc_v =
            fmul (np_sqrt (fadd (fsquare (fmul (fdiv (Inr x) sep_v) (Inr ex)))
                                (fsquare (fmul (fdiv (Inr y) sep_v) (Inr ey)))))
                 (Inr sigma);
          pa_unc_v =
            fmul (np_rad2deg
                    (np_sqrt (fadd (fsquare (fmul (fdiv (Inr y) (fsquare sep_v)) (Inr ex)))
                                   (fsquare (fmul (fdiv (fneg (Inr x)) (fsquare sep_v)) (Inr ey))))))
                 (Inr sigma);
          dm_upper_v = mag_diff (fadd (Inr f) (fmul (Inr ef) (Inr sigma)));
          dm_lower_v = mag_diff (fsub (Inr f) (fmul (Inr ef) (Inr sigma)))
      in \<lparr>sep = sep_v, pa = pa_v, dm = dm_v, sep_unc = sep_unc_v, pa_unc = pa_unc_v,
          dm_upper = dm_upper_v, dm_lower = dm_lower_v\<rparr>)"

subsection \<open>The formulas of the specification\<close>

text \<open>
  The specification states each result as a formula over the real numbers. These
  definitions follow its words; the properties compare the results of the code with them.
  \<open>spec_pa_unc\<close> is the specification's formula for the position-angle uncertainty as
  it is written, without a conversion to degrees.
\<close>

definition spec_sep :: "real \<Rightarrow> real \<Rightarrow> real" where
  "spec_sep x y = sqrt (x\<^sup>2 + y\<^sup>2)"

definition spec_pa :: "real \<Rightarrow> real \<Rightarrow> real" where
  "spec_pa x y = 360 + 180 / pi * arctan2 x y"

definition spec_mag_diff :: "real \<Rightarrow> real" where
  "spec_mag_diff f = - 2.5 * log 10 f"

definition spec_sep_unc :: "real \<Rightarrow> real \<Rightarrow> real \<Rightarrow> real \<Rightarrow> real \<Rightarrow> real" where
  "spec_sep_unc x y ex ey sigma =
     sigma * sqrt ((x / spec_sep x y * ex)\<^sup>2 + (y / spec_sep x y * ey)\<^sup>2)"

definition spec_pa_unc :: "real \<Rightarrow> real \<Rightarrow> real \<Rightarrow> real \<Rightarrow> real \<Rightarrow> real" where
  "spec_pa_unc x y ex ey sigma =
     sigma * sqrt ((y / (spec_sep x y)\<^sup>2 * ex)\<^sup>2 + (- x / (spec_sep x y)\<^sup>2 * ey)\<^sup>2)"

subsection \<open>Measures of accuracy and of magnitude\<close>

text \<open>
  \<open>approx n a b\<close>: \<open>a\<close> is within a relative error of \<open>n\<close> units of \<open>2\<^sup>-\<^sup>5\<^sup>2\<close> of \<open>b\<close>.
  \<open>mag L b\<close>: \<open>b\<close> is zero or its magnitude lies between \<open>2\<^sup>-\<^sup>L\<close> and \<open>2\<^sup>L\<close>.
\<close>

definition approx :: "nat \<Rightarrow> real \<Rightarrow> real \<Rightarrow> bool" where
  "approx n a b \<longleftrightarrow> \<bar>a - b\<bar> \<le> real n * pow2 (- 52) * \<bar>b\<bar>"

definition mag :: "int \<Rightarrow> real \<Rightarrow> bool" where
  "mag L b \<longleftrightarrow> b = 0 \<or> (pow2 (- L) \<le> \<bar>b\<bar> \<and> \<bar>b\<bar> \<le> pow2 L)"

section \<open>Binary64 rounding\<close>

subsection \<open>Powers of two\<close>

lemma pow2_pos [simp]: "0 < pow2 e"
  by (simp add: pow2_def)

lemma pow2_nonneg [simp]: "0 \<le> pow2 e"
  by (simp add: pow2_def)

lemma pow2_neq0 [simp]: "pow2 e \<noteq> 0"
  by (simp add: pow2_def)

lemma pow2_add: "pow2 (a + b) = pow2 a * pow2 b"
  by (simp add: pow2_def powr_add)

lemma pow2_diff: "pow2 (a - b) = pow2 a / pow2 b"
  by (simp add: pow2_def powr_diff)

lemma pow2_0 [simp]: "pow2 0 = 1"
  by (simp add: pow2_def)

lemma pow2_nat: "pow2 (int n) = 2 ^ n"
  by (simp add: pow2_def powr_realpow)

lemma pow2_numeral: "pow2 (numeral k) = 2 ^ numeral k"
  using pow2_nat [of "numeral k"] by simp

lemma pow2_neg_numeral: "pow2 (- numeral k) = 1 / 2 ^ numeral k"
proof -
  have "pow2 (0 - numeral k) = pow2 0 / pow2 (numeral k)" by (rule pow2_diff)
  then show ?thesis by (simp add: pow2_numeral)
qed

lemma pow2_Suc: "pow2 (e + 1) = 2 * pow2 e"
  using pow2_add [of e 1] pow2_nat [of 1] by simp

lemma pow2_le_iff [simp]: "pow2 a \<le> pow2 b \<longleftrightarrow> a \<le> b"
  by (simp add: pow2_def)

lemma pow2_less_iff [simp]: "pow2 a < pow2 b \<longleftrightarrow> a < b"
  by (simp add: pow2_def)

lemma pow2_le_one: "e \<le> 0 \<Longrightarrow> pow2 e \<le> 1"
  using pow2_le_iff [of e 0] by simp

lemma pow2_nonneg_int: "0 \<le> e \<Longrightarrow> pow2 e = of_int (2 ^ nat e)"
  using pow2_nat [of "nat e"] by simp

subsection \<open>Rounding to the nearest integer, ties to even\<close>

lemma rne_of_int [simp]: "rne (of_int n) = n"
  by (simp add: rne_def)

lemma rne_cases:
  "rne t = \<lfloor>t\<rfloor> \<and> t - of_int \<lfloor>t\<rfloor> \<le> 1 / 2 \<or> rne t = \<lfloor>t\<rfloor> + 1 \<and> 1 / 2 \<le> t - of_int \<lfloor>t\<rfloor>"
  by (auto simp: rne_def Let_def)

lemma rne_err: "\<bar>of_int (rne t) - t\<bar> \<le> 1 / 2"
proof -
  have "of_int \<lfloor>t\<rfloor> \<le> t" "t < of_int \<lfloor>t\<rfloor> + 1" by linarith+
  then show ?thesis using rne_cases [of t] by auto
qed

lemma rne_near: "\<bar>t - of_int n\<bar> < 1 / 2 \<Longrightarrow> rne t = n"
proof -
  assume a: "\<bar>t - of_int n\<bar> < 1 / 2"
  have "\<bar>of_int (rne t) - of_int n :: real\<bar> < 1"
    using rne_err [of t] a by linarith
  then have "\<bar>rne t - n\<bar> < 1" by linarith
  then show ?thesis by simp
qed

lemma rne_mono: "t1 \<le> t2 \<Longrightarrow> rne t1 \<le> rne t2"
proof -
  assume le: "t1 \<le> t2"
  then have fl: "\<lfloor>t1\<rfloor> \<le> \<lfloor>t2\<rfloor>" by (rule floor_mono)
  show ?thesis
  proof (cases "\<lfloor>t1\<rfloor> = \<lfloor>t2\<rfloor>")
    case True
    with le have "t1 - of_int \<lfloor>t1\<rfloor> \<le> t2 - of_int \<lfloor>t2\<rfloor>" by simp
    with True show ?thesis by (auto simp: rne_def Let_def)
  next
    case False
    with fl have "\<lfloor>t1\<rfloor> + 1 \<le> \<lfloor>t2\<rfloor>" by simp
    moreover have "rne t1 \<le> \<lfloor>t1\<rfloor> + 1" using rne_cases [of t1] by auto
    moreover have "\<lfloor>t2\<rfloor> \<le> rne t2" using rne_cases [of t2] by auto
    ultimately show ?thesis by linarith
  qed
qed

lemma rne_minus: "rne (- t) = - rne t"
proof (cases "t = of_int \<lfloor>t\<rfloor>")
  case True
  then obtain n :: int where "t = of_int n" ..
  then have "- t = of_int (- n)" by simp
  then show ?thesis using \<open>t = of_int n\<close> by (simp only: rne_of_int)
next
  case False
  moreover have "of_int \<lfloor>t\<rfloor> \<le> t" "t < of_int \<lfloor>t\<rfloor> + 1" by linarith+
  ultimately have lt: "of_int \<lfloor>t\<rfloor> < t" "t < of_int \<lfloor>t\<rfloor> + 1" by linarith+
  have "of_int (- \<lfloor>t\<rfloor> - 1) \<le> - t" by simp linarith
  moreover have "- t < of_int (- \<lfloor>t\<rfloor> - 1) + 1" using lt(1) by simp
  ultimately have fm: "\<lfloor>- t\<rfloor> = - \<lfloor>t\<rfloor> - 1"
    by (rule floor_unique)
  have d: "- t - of_int (- \<lfloor>t\<rfloor> - 1) = 1 - (t - of_int \<lfloor>t\<rfloor>)" by simp
  show ?thesis
    unfolding rne_def Let_def fm d by (auto simp: algebra_simps)
qed

subsection \<open>The unit in the last place\<close>

lemma ulp_exp_ge: "- 1074 \<le> ulp_exp r"
  by (simp add: ulp_exp_def)

lemma ulp_exp_minus [simp]: "ulp_exp (- r) = ulp_exp r"
  by (simp add: ulp_exp_def)

lemma pow2_floor_log_le:
  assumes "r \<noteq> 0"
  shows "pow2 \<lfloor>log 2 \<bar>r\<bar>\<rfloor> \<le> \<bar>r\<bar>"
proof -
  have "of_int \<lfloor>log 2 \<bar>r\<bar>\<rfloor> \<le> log 2 \<bar>r\<bar>" by simp
  then have "2 powr (of_int \<lfloor>log 2 \<bar>r\<bar>\<rfloor>) \<le> 2 powr (log 2 \<bar>r\<bar>)"
    by simp
  then show ?thesis using assms by (simp add: pow2_def)
qed

lemma less_pow2_floor_log:
  assumes "r \<noteq> 0"
  shows "\<bar>r\<bar> < pow2 (\<lfloor>log 2 \<bar>r\<bar>\<rfloor> + 1)"
proof -
  have "log 2 \<bar>r\<bar> < of_int (\<lfloor>log 2 \<bar>r\<bar>\<rfloor> + 1)" by linarith
  then have "2 powr (log 2 \<bar>r\<bar>) < 2 powr (of_int (\<lfloor>log 2 \<bar>r\<bar>\<rfloor> + 1))"
    by (subst powr_less_cancel_iff) simp_all
  then show ?thesis using assms by (simp add: pow2_def)
qed

lemma floor_log2_eq:
  assumes "pow2 k \<le> \<bar>r\<bar>" and "\<bar>r\<bar> < pow2 (k + 1)"
  shows "\<lfloor>log 2 \<bar>r\<bar>\<rfloor> = k"
proof -
  have "0 < \<bar>r\<bar>" using assms(1) pow2_pos [of k] by linarith
  then show ?thesis
    using assms by (simp add: floor_log_eq_powr_iff pow2_def)
qed

lemma floor_log2_le:
  assumes "r \<noteq> 0" and "\<bar>r\<bar> < pow2 k"
  shows "\<lfloor>log 2 \<bar>r\<bar>\<rfloor> < k"
proof -
  have "pow2 \<lfloor>log 2 \<bar>r\<bar>\<rfloor> < pow2 k"
    using pow2_floor_log_le [OF assms(1)] assms(2) by linarith
  then show ?thesis by simp
qed

lemma floor_log2_ge:
  assumes "pow2 k \<le> \<bar>r\<bar>"
  shows "k \<le> \<lfloor>log 2 \<bar>r\<bar>\<rfloor>"
proof -
  have "0 < \<bar>r\<bar>" using assms pow2_pos [of k] by linarith
  then have nz: "r \<noteq> 0" by simp
  have "pow2 k < pow2 (\<lfloor>log 2 \<bar>r\<bar>\<rfloor> + 1)"
    using less_pow2_floor_log [OF nz] assms by linarith
  then show ?thesis by simp
qed

lemma ulp_exp_mono:
  assumes "r1 \<noteq> 0" and "\<bar>r1\<bar> \<le> \<bar>r2\<bar>"
  shows "ulp_exp r1 \<le> ulp_exp r2"
proof -
  have "pow2 \<lfloor>log 2 \<bar>r1\<bar>\<rfloor> \<le> \<bar>r2\<bar>"
    using pow2_floor_log_le [OF assms(1)] assms(2) by linarith
  then have "\<lfloor>log 2 \<bar>r1\<bar>\<rfloor> \<le> \<lfloor>log 2 \<bar>r2\<bar>\<rfloor>" by (rule floor_log2_ge)
  then show ?thesis by (simp add: ulp_exp_def)
qed

lemma pow2_ulp_le:
  assumes "r \<noteq> 0" and "\<bar>r\<bar> \<le> B" and "pow2 (- 1022) \<le> B"
  shows "pow2 (ulp_exp r) \<le> B * pow2 (- 52)"
proof (cases "\<lfloor>log 2 \<bar>r\<bar>\<rfloor> - 52 \<le> - 1074")
  case True
  then have "ulp_exp r = - 1074" by (simp add: ulp_exp_def)
  moreover have "pow2 (- 1074) = pow2 (- 1022) * pow2 (- 52)"
    by (simp only: pow2_add [symmetric]) simp
  ultimately show ?thesis
    using assms(3) by (simp only: mult_right_mono pow2_nonneg)
next
  case False
  then have "ulp_exp r = \<lfloor>log 2 \<bar>r\<bar>\<rfloor> - 52" by (simp add: ulp_exp_def)
  then have "pow2 (ulp_exp r) = pow2 \<lfloor>log 2 \<bar>r\<bar>\<rfloor> * pow2 (- 52)"
    by (simp only: pow2_add [symmetric]) simp
  also have "\<dots> \<le> B * pow2 (- 52)"
    using pow2_floor_log_le [OF assms(1)] assms(2)
    by (intro mult_right_mono) simp_all
  finally show ?thesis .
qed

subsection \<open>The rounded value\<close>

lemma rval_0 [simp]: "rval 0 = 0"
  by (simp add: rval_def)

lemma rval_minus: "rval (- r) = - rval r"
  by (simp add: rval_def rne_minus)

lemma rval_err_ulp: "r \<noteq> 0 \<Longrightarrow> \<bar>rval r - r\<bar> \<le> pow2 (ulp_exp r) / 2"
proof -
  assume nz: "r \<noteq> 0"
  define u where "u = pow2 (ulp_exp r)"
  have u: "0 < u" by (simp add: u_def)
  have "rval r - r = (of_int (rne (r / u)) - r / u) * u"
    using nz u by (simp add: rval_def u_def algebra_simps)
  then have "\<bar>rval r - r\<bar> = \<bar>of_int (rne (r / u)) - r / u\<bar> * u"
    using u by (simp add: abs_mult)
  also have "\<dots> \<le> 1 / 2 * u"
    using rne_err [of "r / u"] u by (intro mult_right_mono) simp_all
  finally show ?thesis by (simp add: u_def)
qed

lemma rval_err:
  assumes "\<bar>r\<bar> \<le> B" and "pow2 (- 1022) \<le> B"
  shows "\<bar>rval r - r\<bar> \<le> B * pow2 (- 53)"
proof (cases "r = 0")
  case True
  have "0 \<le> B" using assms(2) pow2_pos [of "- 1022"] by linarith
  then show ?thesis using True by simp
next
  case False
  have "\<bar>rval r - r\<bar> \<le> pow2 (ulp_exp r) / 2" using False by (rule rval_err_ulp)
  also have "\<dots> \<le> B * pow2 (- 52) / 2"
    using pow2_ulp_le [OF False assms] by simp
  also have "\<dots> = B * pow2 (- 53)" using pow2_Suc [of "- 53"] by simp
  finally show ?thesis .
qed

lemma rval_exact:
  assumes "\<bar>m\<bar> < 2 ^ 53" and "- 1074 \<le> e"
  shows "rval (of_int m * pow2 e) = of_int m * pow2 e"
proof (cases "m = 0")
  case True
  then show ?thesis by simp
next
  case False
  define r where "r = of_int m * pow2 e"
  define u where "u = ulp_exp r"
  have nz: "r \<noteq> 0" using False by (simp add: r_def)
  have "\<bar>r\<bar> = of_int \<bar>m\<bar> * pow2 e" by (simp add: r_def abs_mult)
  also have "\<dots> < 2 ^ 53 * pow2 e"
  proof (rule mult_strict_right_mono)
    have "real_of_int \<bar>m\<bar> < real_of_int (2 ^ 53)"
      using assms(1) by (simp only: of_int_less_iff)
    then show "real_of_int \<bar>m\<bar> < 2 ^ 53" by simp
  qed simp
  also have "\<dots> = pow2 (53 + e)" by (simp add: pow2_add pow2_numeral)
  finally have "\<lfloor>log 2 \<bar>r\<bar>\<rfloor> < 53 + e" using nz by (intro floor_log2_le)
  with assms(2) have ue: "u \<le> e" by (simp add: ulp_exp_def u_def)
  define j where "j = nat (e - u)"
  have e: "e = u + int j" using ue by (simp add: j_def)
  have pe: "pow2 e = pow2 u * 2 ^ j"
    by (subst e) (simp add: pow2_add pow2_nat)
  have q: "r / pow2 u = of_int (m * 2 ^ j)"
    by (simp add: r_def pe)
  have "rval r = of_int (rne (r / pow2 u)) * pow2 u"
    using nz by (simp add: rval_def u_def)
  also have "\<dots> = of_int (m * 2 ^ j) * pow2 u" by (simp only: q rne_of_int)
  also have "\<dots> = r" using q by (simp add: field_simps)
  finally show ?thesis by (simp only: r_def)
qed

lemma rne_0 [simp]: "rne 0 = 0"
  using rne_of_int [of 0] by simp

lemma rne_nonneg: "0 \<le> t \<Longrightarrow> 0 \<le> rne t"
  using rne_mono [of 0 t] by simp

lemma rval_nonneg: "0 \<le> r \<Longrightarrow> 0 \<le> rval r"
  by (simp add: rval_def rne_nonneg)

lemma rval_ge_pow2:
  assumes "0 < r" and "- 1074 \<le> \<lfloor>log 2 \<bar>r\<bar>\<rfloor> - 52"
  shows "pow2 \<lfloor>log 2 \<bar>r\<bar>\<rfloor> \<le> rval r"
proof -
  define k where "k = \<lfloor>log 2 \<bar>r\<bar>\<rfloor>"
  have nz: "r \<noteq> 0" using assms(1) by simp
  have u: "ulp_exp r = k - 52" using assms(2) by (simp add: ulp_exp_def k_def)
  have "pow2 k \<le> r" using pow2_floor_log_le [OF nz] assms(1) by (simp add: k_def)
  then have "pow2 k / pow2 (k - 52) \<le> r / pow2 (k - 52)"
    by (intro divide_right_mono) simp_all
  moreover have "pow2 k / pow2 (k - 52) = of_int (2 ^ 52)"
    by (simp only: pow2_diff [symmetric]) (simp add: pow2_numeral)
  ultimately have "rne (of_int (2 ^ 52)) \<le> rne (r / pow2 (k - 52))"
    by (intro rne_mono) simp
  then have "(2 ^ 52 :: int) \<le> rne (r / pow2 (k - 52))" by (simp only: rne_of_int)
  then have c: "real_of_int (2 ^ 52) \<le> of_int (rne (r / pow2 (k - 52)))"
    by (simp only: of_int_le_iff)
  have "pow2 k = pow2 (52 + (k - 52))" by simp
  also have "\<dots> = of_int (2 ^ 52) * pow2 (k - 52)"
    by (simp only: pow2_add) (simp add: pow2_numeral)
  also have "\<dots> \<le> of_int (rne (r / pow2 (k - 52))) * pow2 (k - 52)"
    using c by (intro mult_right_mono) simp_all
  also have "\<dots> = rval r" using nz by (simp add: rval_def u)
  finally show ?thesis by (simp only: k_def)
qed

lemma rval_le_pow2:
  assumes "0 < r"
  shows "rval r \<le> pow2 (max (\<lfloor>log 2 \<bar>r\<bar>\<rfloor> + 1) (- 1074))"
proof -
  define k where "k = \<lfloor>log 2 \<bar>r\<bar>\<rfloor>"
  define u where "u = ulp_exp r"
  have nz: "r \<noteq> 0" using assms by simp
  have lt: "r < pow2 (k + 1)" using less_pow2_floor_log [OF nz] assms by (simp add: k_def)
  have rv: "rval r = of_int (rne (r / pow2 u)) * pow2 u"
    using nz by (simp add: rval_def u_def)
  show ?thesis
  proof (cases "u \<le> k + 1")
    case True
    define j where "j = nat (k + 1 - u)"
    have "pow2 (k + 1) = pow2 (u + int j)" using True by (simp add: j_def)
    also have "\<dots> = pow2 u * 2 ^ j" by (simp add: pow2_add pow2_nat)
    finally have "r / pow2 u \<le> of_int (2 ^ j)"
      using lt by (simp add: field_simps)
    then have "rne (r / pow2 u) \<le> rne (of_int (2 ^ j))" by (rule rne_mono)
    then have "rne (r / pow2 u) \<le> 2 ^ j" by (simp only: rne_of_int)
    then have "real_of_int (rne (r / pow2 u)) \<le> of_int (2 ^ j)"
      by (simp only: of_int_le_iff)
    then have "rval r \<le> of_int (2 ^ j) * pow2 u"
      unfolding rv by (intro mult_right_mono) simp_all
    also have "\<dots> = pow2 (u + int j)" by (simp add: pow2_add pow2_nat)
    also have "\<dots> = pow2 (k + 1)" using True by (simp add: j_def)
    also have "\<dots> \<le> pow2 (max (k + 1) (- 1074))" by simp
    finally show ?thesis by (simp only: k_def)
  next
    case False
    then have u1074: "u = - 1074" by (simp add: u_def ulp_exp_def k_def)
    have "pow2 (k + 1) \<le> pow2 u" using False by simp
    with lt have "r \<le> pow2 u" by linarith
    then have "r / pow2 u \<le> of_int 1" by (simp add: field_simps)
    then have "rne (r / pow2 u) \<le> rne (of_int 1)" by (rule rne_mono)
    then have "rne (r / pow2 u) \<le> 1" by (simp only: rne_of_int)
    then have "real_of_int (rne (r / pow2 u)) \<le> 1" by simp
    then have "rval r \<le> 1 * pow2 u"
      unfolding rv by (intro mult_right_mono) simp_all
    also have "\<dots> \<le> pow2 (max (k + 1) (- 1074))" by (simp add: u1074)
    finally show ?thesis by (simp only: k_def)
  qed
qed

lemma rval_mono_pos:
  assumes "0 < r1" and "r1 \<le> r2"
  shows "rval r1 \<le> rval r2"
proof -
  have nz: "r1 \<noteq> 0" "r2 \<noteq> 0" using assms by simp_all
  have r2: "0 < r2" using assms by simp
  have ule: "ulp_exp r1 \<le> ulp_exp r2"
    using assms by (intro ulp_exp_mono) simp_all
  show ?thesis
  proof (cases "ulp_exp r1 = ulp_exp r2")
    case True
    have "r1 / pow2 (ulp_exp r2) \<le> r2 / pow2 (ulp_exp r2)"
      using assms(2) by (intro divide_right_mono) simp_all
    then have "rne (r1 / pow2 (ulp_exp r2)) \<le> rne (r2 / pow2 (ulp_exp r2))"
      by (rule rne_mono)
    then have "real_of_int (rne (r1 / pow2 (ulp_exp r2))) \<le> of_int (rne (r2 / pow2 (ulp_exp r2)))"
      by (simp only: of_int_le_iff)
    then have "of_int (rne (r1 / pow2 (ulp_exp r2))) * pow2 (ulp_exp r2)
        \<le> of_int (rne (r2 / pow2 (ulp_exp r2))) * pow2 (ulp_exp r2)"
      by (intro mult_right_mono) simp_all
    then show ?thesis using nz True by (simp add: rval_def)
  next
    case False
    define k1 where "k1 = \<lfloor>log 2 \<bar>r1\<bar>\<rfloor>"
    define k2 where "k2 = \<lfloor>log 2 \<bar>r2\<bar>\<rfloor>"
    from False ule have lt: "ulp_exp r1 < ulp_exp r2" by simp
    then have "max (k1 - 52) (- 1074) < max (k2 - 52) (- 1074)"
      by (simp only: ulp_exp_def k1_def k2_def)
    then have a: "- 1074 < k2 - 52" "k1 - 52 < k2 - 52"
      by arith+
    have "rval r1 \<le> pow2 (max (k1 + 1) (- 1074))"
      using rval_le_pow2 [OF assms(1)] by (simp only: k1_def)
    also have "\<dots> \<le> pow2 k2" using a by simp
    also have "\<dots> \<le> rval r2"
      unfolding k2_def using r2 a(1) by (intro rval_ge_pow2) (simp_all add: k2_def)
    finally show ?thesis .
  qed
qed

lemma rval_mono:
  assumes "r1 \<le> r2"
  shows "rval r1 \<le> rval r2"
proof -
  consider "0 < r1" | "r2 < 0" | "r1 \<le> 0" "0 \<le> r2" by linarith
  then show ?thesis
  proof cases
    case 1
    then show ?thesis using assms by (rule rval_mono_pos)
  next
    case 2
    then have "rval (- r2) \<le> rval (- r1)"
      using assms by (intro rval_mono_pos) simp_all
    then show ?thesis by (simp add: rval_minus)
  next
    case 3
    have "0 \<le> rval (- r1)" using 3(1) by (intro rval_nonneg) simp
    then have "rval r1 \<le> 0" by (simp add: rval_minus)
    also have "0 \<le> rval r2" using 3(2) by (rule rval_nonneg)
    finally show ?thesis .
  qed
qed

subsection \<open>Rounding to binary64\<close>

lemma round64_0 [simp]: "round64 0 = Inr 0"
  by (simp add: round64_def)

lemma round64_Inr_iff: "round64 r = Inr v \<longleftrightarrow> \<bar>rval r\<bar> < 2 ^ 1024 \<and> v = rval r"
  by (auto simp: round64_def)

lemma round64_exact:
  assumes "\<bar>m\<bar> < 2 ^ 53" and "- 1074 \<le> e" and "\<bar>of_int m * pow2 e\<bar> < 2 ^ 1024"
  shows "round64 (of_int m * pow2 e) = Inr (of_int m * pow2 e)"
  using assms(3) by (simp only: round64_Inr_iff rval_exact [OF assms(1,2)] simp_thms)

lemma round64_mono:
  assumes "r1 \<le> r2" and "round64 r1 = Inr v1" and "round64 r2 = Inr v2"
  shows "v1 \<le> v2"
  using assms rval_mono [of r1 r2] by (simp add: round64_Inr_iff)

lemma round64_err:
  assumes "\<bar>r\<bar> \<le> B" and "pow2 (- 1022) \<le> B" and "B \<le> pow2 1023"
  shows "\<exists>v. round64 r = Inr v \<and> \<bar>v - r\<bar> \<le> B * pow2 (- 53)"
proof -
  have e: "\<bar>rval r - r\<bar> \<le> B * pow2 (- 53)" using assms(1,2) by (rule rval_err)
  have "0 \<le> B" using assms(2) pow2_pos [of "- 1022"] by linarith
  then have "B * pow2 (- 53) \<le> B * 1" by (intro mult_left_mono pow2_le_one) simp_all
  with e assms(1) have "\<bar>rval r\<bar> \<le> 2 * B" by linarith
  also have "\<dots> \<le> 2 * pow2 1023" using assms(3) by simp
  also have "\<dots> = 2 ^ 1024" by (simp add: pow2_numeral)
  finally have "\<bar>rval r\<bar> \<le> 2 ^ 1024" .
  moreover have "\<bar>rval r\<bar> \<noteq> 2 ^ 1024"
  proof
    assume eq: "\<bar>rval r\<bar> = 2 ^ 1024"
    have "B * pow2 (- 53) \<le> pow2 1023 * pow2 (- 53)"
      using assms(3) by (intro mult_right_mono) simp_all
    with e assms(1,3) eq have "2 ^ 1024 \<le> pow2 1023 + pow2 1023 * pow2 (- 53)" by linarith
    then show False by (simp add: pow2_numeral pow2_neg_numeral)
  qed
  ultimately have "\<bar>rval r\<bar> < 2 ^ 1024" by linarith
  with e show ?thesis by (simp add: round64_Inr_iff)
qed

lemma round64_range:
  assumes "round64 r = Inr v"
  shows "v = 0 \<or> pow2 (- 1074) \<le> \<bar>v\<bar>"
proof (cases "v = 0")
  case False
  from assms have v: "v = rval r" by (simp add: round64_Inr_iff)
  with False have nz: "r \<noteq> 0" by auto
  define n where "n = rne (r / pow2 (ulp_exp r))"
  have vn: "v = of_int n * pow2 (ulp_exp r)" using v nz by (simp add: rval_def n_def)
  with False have "n \<noteq> 0" by auto
  then have "1 \<le> \<bar>n\<bar>" by simp
  then have "1 \<le> real_of_int \<bar>n\<bar>" by (simp only: of_int_1_le_iff)
  then have "1 * pow2 (- 1074) \<le> real_of_int \<bar>n\<bar> * pow2 (ulp_exp r)"
    using ulp_exp_ge [of r] by (intro mult_mono) simp_all
  then show ?thesis by (simp add: vn abs_mult)
qed simp

text \<open>Evaluation at dyadic numbers\<close>

lemma round64_int:
  assumes "\<bar>m\<bar> < 2 ^ 53"
  shows "round64 (of_int m) = Inr (of_int m)"
proof -
  have "real_of_int \<bar>m\<bar> < real_of_int (2 ^ 53)" using assms by (simp only: of_int_less_iff)
  also have "\<dots> < 2 ^ 1024" by simp
  finally have "\<bar>of_int m * pow2 0\<bar> < 2 ^ 1024" by simp
  with round64_exact [OF assms, of 0] show ?thesis by simp
qed

lemma round64_1 [simp]: "round64 1 = Inr 1"
  using round64_int [of 1] by simp

lemma round64_numeral:
  assumes "(numeral k :: int) < 2 ^ 53"
  shows "round64 (numeral k) = Inr (numeral k)"
  using round64_int [of "numeral k"] assms by simp

lemma round64_neg_numeral:
  assumes "(numeral k :: int) < 2 ^ 53"
  shows "round64 (- numeral k) = Inr (- numeral k)"
  using round64_int [of "- numeral k"] assms by simp

lemma round64_360: "round64 360 = Inr 360"
  by (rule round64_numeral) simp

lemma rval_tiny:
  assumes "\<bar>r\<bar> < pow2 (- 1075)"
  shows "rval r = 0"
proof (cases "r = 0")
  case False
  have "pow2 (- 1075) \<le> pow2 (- 1022)" by simp
  with assms have "\<bar>r\<bar> < pow2 (- 1022)" by linarith
  then have "\<lfloor>log 2 \<bar>r\<bar>\<rfloor> < - 1022" using False by (intro floor_log2_le)
  then have u: "ulp_exp r = - 1074" unfolding ulp_exp_def by linarith
  have "\<bar>r / pow2 (- 1074)\<bar> = \<bar>r\<bar> / pow2 (- 1074)" by simp
  also have "\<dots> < pow2 (- 1075) / pow2 (- 1074)"
    using assms by (intro divide_strict_right_mono) simp_all
  also have "\<dots> = 1 / 2" using pow2_Suc [of "- 1075"] by simp
  finally have "rne (r / pow2 (- 1074)) = 0" by (intro rne_near) simp
  then show ?thesis using False by (simp add: rval_def u)
qed simp

lemma round64_tiny: "\<bar>r\<bar> < pow2 (- 1075) \<Longrightarrow> round64 r = Inr 0"
  by (simp add: round64_def rval_tiny)

lemma round64_pow2:
  assumes "- 1074 \<le> e" and "e < 1024"
  shows "round64 (pow2 e) = Inr (pow2 e)"
proof -
  have "pow2 e < pow2 1024" using assms(2) by simp
  then have "\<bar>of_int 1 * pow2 e\<bar> < 2 ^ 1024" by (simp add: pow2_numeral)
  with round64_exact [of 1 e] assms(1) show ?thesis by simp
qed

section \<open>The results of the notebook's functions\<close>

subsection \<open>Special values absorb\<close>

lemma fadd_NaN [simp]: "fadd a (Inl NaN) = Inl NaN" "fadd (Inl NaN) a = Inl NaN"
  by (cases a rule: fneg.cases; simp)+

lemma fmul_NaN [simp]: "fmul a (Inl NaN) = Inl NaN" "fmul (Inl NaN) a = Inl NaN"
  by (cases a rule: fneg.cases; simp)+

lemma fdiv_NaN [simp]: "fdiv a (Inl NaN) = Inl NaN" "fdiv (Inl NaN) a = Inl NaN"
  by (cases a rule: fneg.cases; simp)+

lemma fsquare_NaN [simp]: "fsquare (Inl NaN) = Inl NaN"
  by (simp add: fsquare_def)

lemma fsquare_Inr: "fsquare (Inr a) = round64 (a * a)"
  by (simp add: fsquare_def)

lemma fsquare_0 [simp]: "fsquare (Inr 0) = Inr 0"
  by (simp add: fsquare_def)

lemma np_rad2deg_NaN [simp]: "np_rad2deg (Inl NaN) = Inl NaN"
  by (simp add: np_rad2deg_def)

lemma fsub_Inr: "fsub (Inr a) (Inr b) = round64 (a - b)"
  by (simp add: fsub_def)

subsection \<open>The constant of \<open>np_rad2deg\<close>\<close>

lemma round64_pi: "\<exists>p. round64 pi = Inr p \<and> \<bar>p - pi\<bar> \<le> pow2 (- 51)"
proof -
  have "\<exists>v. round64 pi = Inr v \<and> \<bar>v - pi\<bar> \<le> 4 * pow2 (- 53)"
  proof (rule round64_err)
    show "\<bar>pi\<bar> \<le> 4" using pi_less_4 by simp
    show "pow2 (- 1022) \<le> 4" using pow2_le_one [of "- 1022"] by simp
    show "4 \<le> pow2 1023" by (simp add: pow2_numeral)
  qed
  moreover have "4 * pow2 (- 53) = pow2 (- 51)"
    using pow2_add [of 2 "- 53"] by (simp add: pow2_numeral)
  ultimately show ?thesis by simp
qed

lemma pow2_m51_small: "pow2 (- 51) \<le> 1 / 1000000"
  by (simp add: pow2_neg_numeral)

lemma rad2deg_const:
  "\<exists>c. fdiv (Inr 180) (round64 pi) = Inr c \<and> 44 \<le> c \<and> c \<le> 91"
proof -
  obtain p where p: "round64 pi = Inr p" "\<bar>p - pi\<bar> \<le> pow2 (- 51)"
    using round64_pi by blast
  have pb1: "199 / 100 \<le> p"
    using p(2) pow2_m51_small pi_ge_two by linarith
  have pb2: "p \<le> 401 / 100"
    using p(2) pow2_m51_small pi_less_4 by linarith
  have pp: "0 < p" using pb1 by linarith
  have q1: "89 / 2 \<le> 180 / p"
    using pp pb2 by (simp add: pos_le_divide_eq)
  have q2: "180 / p \<le> 181 / 2"
    using pp pb1 by (simp add: pos_divide_le_eq)
  have "\<exists>v. round64 (180 / p) = Inr v \<and> \<bar>v - 180 / p\<bar> \<le> 128 * pow2 (- 53)"
  proof (rule round64_err)
    show "\<bar>180 / p\<bar> \<le> 128" using q1 q2 by simp
    show "pow2 (- 1022) \<le> 128" using pow2_le_one [of "- 1022"] by simp
    show "128 \<le> pow2 1023" by (simp add: pow2_numeral)
  qed
  then obtain c where c: "round64 (180 / p) = Inr c" "\<bar>c - 180 / p\<bar> \<le> 128 * pow2 (- 53)"
    by blast
  have "128 * pow2 (- 53) \<le> 1 / 1000" by (simp add: pow2_neg_numeral)
  with c(2) q1 q2 have "44 \<le> c \<and> c \<le> 91" by linarith
  moreover have "fdiv (Inr 180) (round64 pi) = Inr c"
    using pp c(1) by (simp add: p(1))
  ultimately show ?thesis by blast
qed

lemma np_rad2deg_0 [simp]: "np_rad2deg (Inr 0) = Inr 0"
proof -
  obtain c where "fdiv (Inr 180) (round64 pi) = Inr c" using rad2deg_const by blast
  then show ?thesis by (simp add: np_rad2deg_def)
qed

subsection \<open>The fields of the result\<close>

lemma sep_field:
  "sep (convert_params x y f ex ey ef sigma) =
     np_sqrt (fadd (fsquare (Inr x)) (fsquare (Inr y)))"
  by (simp add: convert_params_def Let_def)

lemma pa_field:
  "pa (convert_params x y f ex ey ef sigma) = fadd (Inr 360) (np_rad2deg (np_arctan2 x y))"
  by (simp add: convert_params_def Let_def)

lemma dm_field: "dm (convert_params x y f ex ey ef sigma) = mag_diff (Inr f)"
  by (simp add: convert_params_def Let_def)

lemma dm_upper_field:
  "dm_upper (convert_params x y f ex ey ef sigma) =
     mag_diff (fadd (Inr f) (fmul (Inr ef) (Inr sigma)))"
  by (simp add: convert_params_def Let_def)

lemma dm_lower_field:
  "dm_lower (convert_params x y f ex ey ef sigma) =
     mag_diff (fsub (Inr f) (fmul (Inr ef) (Inr sigma)))"
  by (simp add: convert_params_def Let_def)

lemma sep_unc_field:
  "sep_unc (convert_params x y f ex ey ef sigma) =
     fmul (np_sqrt (fadd (fsquare (fmul (fdiv (Inr x) (sep (convert_params x y f ex ey ef sigma))) (Inr ex)))
                         (fsquare (fmul (fdiv (Inr y) (sep (convert_params x y f ex ey ef sigma))) (Inr ey)))))
          (Inr sigma)"
  by (simp add: convert_params_def Let_def)

lemma pa_unc_field:
  "pa_unc (convert_params x y f ex ey ef sigma) =
     fmul (np_rad2deg
       (np_sqrt (fadd
          (fsquare (fmul (fdiv (Inr y) (fsquare (sep (convert_params x y f ex ey ef sigma)))) (Inr ex)))
          (fsquare (fmul (fdiv (Inr (- x)) (fsquare (sep (convert_params x y f ex ey ef sigma)))) (Inr ey))))))
       (Inr sigma)"
  by (simp add: convert_params_def Let_def)

subsection \<open>Point evaluations\<close>

lemma arctan2_0_pos: "0 < y \<Longrightarrow> arctan2 0 y = 0"
  by (simp add: arctan2_def)

lemma pa_x0: "0 < y \<Longrightarrow> pa (convert_params 0 y f ex ey ef sigma) = Inr 360"
  by (simp add: pa_field np_arctan2_def arctan2_0_pos round64_360)

lemma mag_diff_1: "mag_diff (Inr 1) = Inr 0"
  by (simp add: mag_diff_def)

text \<open>Underflow of the sum of squares\<close>

lemma sep_underflow: "sep (convert_params (pow2 (- 600)) 0 f ex ey ef sigma) = Inr 0"
proof -
  have "pow2 (- 600) * pow2 (- 600) = pow2 (- 1200)"
    by (simp only: pow2_add [symmetric]) simp
  moreover have "\<bar>pow2 (- 1200)\<bar> < pow2 (- 1075)" by simp
  ultimately have "fsquare (Inr (pow2 (- 600))) = Inr 0"
    by (simp add: fsquare_Inr round64_tiny)
  then show ?thesis by (simp add: sep_field)
qed

lemma sep_unc_underflow:
  "sep_unc (convert_params (pow2 (- 600)) 0 f ex ey ef sigma) = Inl NaN"
  by (simp only: sep_unc_field sep_underflow) simp

lemma pa_unc_underflow:
  "pa_unc (convert_params (pow2 (- 600)) 0 f ex ey ef sigma) = Inl NaN"
  by (simp only: pa_unc_field sep_underflow) simp

lemma is_double_pow2: "- 1074 \<le> e \<Longrightarrow> e < 1024 \<Longrightarrow> is_double (pow2 e)"
  by (simp add: is_double_def round64_pow2)

section \<open>Accuracy of the computed results\<close>

subsection \<open>Relative error\<close>

lemma eps_small: "real n * pow2 (- 52) \<le> 1 / 2 ^ 30" if "n \<le> 1000"
proof -
  have "real n * pow2 (- 52) \<le> 1000 * pow2 (- 52)"
    using that by (intro mult_right_mono) simp_all
  also have "\<dots> \<le> 1 / 2 ^ 30" by (simp add: pow2_neg_numeral)
  finally show ?thesis .
qed

lemma approx_refl [simp]: "approx n b b"
  by (simp add: approx_def)

lemma approx_zero: "approx n a 0 \<Longrightarrow> a = 0"
  by (simp add: approx_def)

lemma approx_mono: "approx n a b \<Longrightarrow> n \<le> m \<Longrightarrow> approx m a b"
proof -
  assume a: "approx n a b" and le: "n \<le> m"
  have "real n * pow2 (- 52) * \<bar>b\<bar> \<le> real m * pow2 (- 52) * \<bar>b\<bar>"
    using le by (intro mult_right_mono) simp_all
  with a show ?thesis unfolding approx_def by linarith
qed

lemma approxE:
  assumes "approx n a b"
  obtains d where "a = b * (1 + d)" and "\<bar>d\<bar> \<le> real n * pow2 (- 52)"
proof (cases "b = 0")
  case True
  with assms have "a = 0" by (simp add: approx_zero)
  with True have "a = b * (1 + 0)" "\<bar>0 :: real\<bar> \<le> real n * pow2 (- 52)" by simp_all
  then show ?thesis by (rule that)
next
  case False
  define d where "d = (a - b) / b"
  have 1: "a = b * (1 + d)" using False by (simp add: d_def field_simps)
  have "\<bar>d\<bar> = \<bar>a - b\<bar> / \<bar>b\<bar>" by (simp add: d_def)
  also have "\<dots> \<le> real n * pow2 (- 52)"
    using assms False by (simp add: approx_def field_simps)
  finally show ?thesis using 1 by (intro that)
qed

lemma approxI:
  assumes "a = b * (1 + d)" and "\<bar>d\<bar> \<le> real n * pow2 (- 52)"
  shows "approx n a b"
proof -
  have "\<bar>a - b\<bar> = \<bar>d\<bar> * \<bar>b\<bar>" by (simp add: assms(1) algebra_simps abs_mult)
  also have "\<dots> \<le> real n * pow2 (- 52) * \<bar>b\<bar>"
    using assms(2) by (intro mult_right_mono) simp_all
  finally show ?thesis by (simp add: approx_def)
qed

lemma approx_abs_le:
  assumes "approx n a b" and "n \<le> 1000"
  shows "\<bar>a\<bar> \<le> 2 * \<bar>b\<bar>"
proof -
  from assms(1) obtain d where d: "a = b * (1 + d)" "\<bar>d\<bar> \<le> real n * pow2 (- 52)"
    by (rule approxE)
  have "\<bar>d\<bar> \<le> 1" using d(2) eps_small [OF assms(2)] by simp
  then have "\<bar>1 + d\<bar> \<le> 2" by linarith
  then have "\<bar>b\<bar> * \<bar>1 + d\<bar> \<le> \<bar>b\<bar> * 2" by (intro mult_left_mono) simp_all
  then show ?thesis by (simp add: d(1) abs_mult)
qed

lemma approx_sgn:
  assumes "approx n a b" and "n \<le> 1000"
  shows "0 < b \<Longrightarrow> 0 < a" and "0 \<le> b \<Longrightarrow> 0 \<le> a" and "b \<noteq> 0 \<Longrightarrow> a \<noteq> 0"
proof -
  from assms(1) obtain d where d: "a = b * (1 + d)" "\<bar>d\<bar> \<le> real n * pow2 (- 52)"
    by (rule approxE)
  have "\<bar>d\<bar> \<le> 1 / 2" using d(2) eps_small [OF assms(2)] by simp
  then have p: "0 < 1 + d" by linarith
  show "0 < b \<Longrightarrow> 0 < a" using p by (simp add: d(1))
  show "0 \<le> b \<Longrightarrow> 0 \<le> a" using p by (simp add: d(1))
  show "b \<noteq> 0 \<Longrightarrow> a \<noteq> 0" using p by (simp add: d(1))
qed

lemma approx_mult:
  assumes "approx n a b" and "approx m c d" and "n \<le> 1000" and "m \<le> 1000"
  shows "approx (n + m + 1) (a * c) (b * d)"
proof -
  define e where "e = pow2 (- 52)"
  from assms(1) obtain u where u: "a = b * (1 + u)" "\<bar>u\<bar> \<le> real n * e"
    unfolding e_def by (rule approxE)
  from assms(2) obtain w where w: "c = d * (1 + w)" "\<bar>w\<bar> \<le> real m * e"
    unfolding e_def by (rule approxE)
  have n1: "real n * e \<le> 1 / 2 ^ 30" unfolding e_def using assms(3) by (rule eps_small)
  have "real m \<le> 1000" using assms(4) by simp
  then have "real m * (1 / 2 ^ 30) \<le> 1" by simp
  have "\<bar>u * w\<bar> = \<bar>u\<bar> * \<bar>w\<bar>" by (simp add: abs_mult)
  also have "\<dots> \<le> (1 / 2 ^ 30) * (real m * e)"
    using u(2) w(2) n1 by (intro mult_mono) simp_all
  also have "\<dots> = (real m * (1 / 2 ^ 30)) * e" by simp
  also have "\<dots> \<le> 1 * e"
    using \<open>real m * (1 / 2 ^ 30) \<le> 1\<close> by (intro mult_right_mono) (simp_all add: e_def)
  finally have uw: "\<bar>u * w\<bar> \<le> e" by simp
  have "a * c = (b * d) * (1 + (u + w + u * w))"
    by (simp add: u(1) w(1) algebra_simps)
  moreover have "\<bar>u + w + u * w\<bar> \<le> real (n + m + 1) * e"
  proof -
    have "\<bar>u + w + u * w\<bar> \<le> \<bar>u\<bar> + \<bar>w\<bar> + \<bar>u * w\<bar>" by linarith
    also have "\<dots> \<le> real n * e + real m * e + e" using u(2) w(2) uw by linarith
    also have "\<dots> = real (n + m + 1) * e" by (simp add: algebra_simps)
    finally show ?thesis .
  qed
  ultimately show ?thesis unfolding e_def by (rule approxI)
qed

lemma div_slack:
  fixes e c N K :: real
  assumes "N = K + 1" and "0 \<le> e" and "N * c \<le> 1"
  shows "K * e \<le> N * e * (1 - c)"
proof -
  have "N * e * (1 - c) - K * e = e * (1 - N * c)"
    by (simp add: assms(1) algebra_simps)
  moreover have "0 \<le> e * (1 - N * c)" using assms(2,3) by simp
  ultimately show ?thesis by linarith
qed

lemma approx_div:
  assumes "approx n a b" and "approx m c d" and "n \<le> 1000" and "m \<le> 1000"
  shows "approx (n + m + 1) (a / c) (b / d)"
proof -
  define e where "e = pow2 (- 52)"
  have e0: "0 < e" by (simp add: e_def)
  from assms(1) obtain u where u: "a = b * (1 + u)" "\<bar>u\<bar> \<le> real n * e"
    unfolding e_def by (rule approxE)
  from assms(2) obtain w where w: "c = d * (1 + w)" "\<bar>w\<bar> \<le> real m * e"
    unfolding e_def by (rule approxE)
  have m1: "real m * e \<le> 1 / 2 ^ 30" unfolding e_def using assms(4) by (rule eps_small)
  then have wb: "\<bar>w\<bar> \<le> 1 / 2 ^ 30" using w(2) by linarith
  then have w1: "1 - 1 / 2 ^ 30 \<le> 1 + w" by linarith
  then have w0: "0 < 1 + w" by simp
  define q where "q = (u - w) / (1 + w)"
  have "a / c = (b / d) * ((1 + u) / (1 + w))" by (simp add: u(1) w(1))
  also have "(1 + u) / (1 + w) = 1 + q" using w0 by (simp add: q_def field_simps)
  finally have eq: "a / c = (b / d) * (1 + q)" .
  have nm: "real (n + m) \<le> 2000" using assms(3,4) by simp
  have "real (n + m) * e = real n * e + real m * e" by (simp add: algebra_simps)
  then have "\<bar>u - w\<bar> \<le> real (n + m) * e" using u(2) w(2) by linarith
  moreover have "real (n + m) * e \<le> real (n + m + 1) * e * (1 - 1 / 2 ^ 30)"
  proof (rule div_slack)
    show "real (n + m + 1) = real (n + m) + 1" by simp
    show "0 \<le> e" using e0 by simp
    show "real (n + m + 1) * (1 / 2 ^ 30) \<le> 1" using nm by simp
  qed
  moreover have "real (n + m + 1) * e * (1 - 1 / 2 ^ 30) \<le> real (n + m + 1) * e * (1 + w)"
    using w1 e0 by (intro mult_left_mono) simp_all
  ultimately have "\<bar>u - w\<bar> \<le> real (n + m + 1) * e * (1 + w)" by linarith
  then have "\<bar>q\<bar> \<le> real (n + m + 1) * e"
    using w0 by (simp add: q_def field_simps)
  with eq show ?thesis unfolding e_def by (rule approxI)
qed

lemma approx_add:
  assumes "approx n a b" and "approx n c d" and "0 \<le> b" and "0 \<le> d"
  shows "approx n (a + c) (b + d)"
proof -
  have "\<bar>a + c - (b + d)\<bar> \<le> \<bar>a - b\<bar> + \<bar>c - d\<bar>" by linarith
  also have "\<dots> \<le> real n * pow2 (- 52) * \<bar>b\<bar> + real n * pow2 (- 52) * \<bar>d\<bar>"
    using assms(1,2) unfolding approx_def by linarith
  also have "\<dots> = real n * pow2 (- 52) * \<bar>b + d\<bar>"
    using assms(3,4) by (simp add: algebra_simps)
  finally show ?thesis by (simp add: approx_def)
qed

lemma approx_sqrt:
  assumes "approx n a b" and "0 \<le> b" and "n \<le> 1000"
  shows "approx n (sqrt a) (sqrt b)"
proof (cases "b = 0")
  case True
  with assms(1) have "a = 0" by (simp add: approx_zero)
  with True show ?thesis by simp
next
  case False
  with assms(2) have b: "0 < b" by simp
  then have a: "0 < a" using approx_sgn(1) [OF assms(1,3)] by simp
  have sb: "0 < sqrt b" using b by simp
  have sa: "0 < sqrt a" using a by simp
  have "(sqrt a - sqrt b) * (sqrt a + sqrt b) = a - b"
    using a b by (simp add: algebra_simps)
  then have "\<bar>sqrt a - sqrt b\<bar> * (sqrt a + sqrt b) = \<bar>a - b\<bar>"
    using sa sb by (metis abs_mult abs_of_pos add_pos_pos)
  moreover have "\<bar>a - b\<bar> \<le> real n * pow2 (- 52) * b"
    using assms(1) b by (simp add: approx_def)
  moreover have "real n * pow2 (- 52) * b = real n * pow2 (- 52) * sqrt b * sqrt b"
    using b by simp
  moreover have "real n * pow2 (- 52) * sqrt b * sqrt b
      \<le> real n * pow2 (- 52) * sqrt b * (sqrt a + sqrt b)"
    using sa sb by (intro mult_left_mono) simp_all
  ultimately have "\<bar>sqrt a - sqrt b\<bar> * (sqrt a + sqrt b)
      \<le> real n * pow2 (- 52) * sqrt b * (sqrt a + sqrt b)" by linarith
  then have "\<bar>sqrt a - sqrt b\<bar> \<le> real n * pow2 (- 52) * sqrt b"
    using sa sb by (simp add: mult_le_cancel_right)
  then show ?thesis using sb by (simp add: approx_def)
qed

subsection \<open>Magnitudes\<close>

lemma mag_0 [simp]: "mag L 0"
  by (simp add: mag_def)

lemma mag_minus [simp]: "mag L (- b) \<longleftrightarrow> mag L b"
  by (simp add: mag_def)

lemma mag_mono: "mag L b \<Longrightarrow> L \<le> L' \<Longrightarrow> mag L' b"
proof -
  assume m: "mag L b" and le: "L \<le> L'"
  have "pow2 (- L') \<le> pow2 (- L)" "pow2 L \<le> pow2 L'" using le by simp_all
  with m show ?thesis unfolding mag_def by linarith
qed

lemma magI: "pow2 (- L) \<le> \<bar>b\<bar> \<Longrightarrow> \<bar>b\<bar> \<le> pow2 L \<Longrightarrow> mag L b"
  by (simp add: mag_def)

lemma mag_mult:
  assumes "mag L1 a" and "mag L2 b"
  shows "mag (L1 + L2) (a * b)"
proof (cases "a = 0 \<or> b = 0")
  case True
  then show ?thesis by auto
next
  case False
  with assms have a: "pow2 (- L1) \<le> \<bar>a\<bar>" "\<bar>a\<bar> \<le> pow2 L1"
    and b: "pow2 (- L2) \<le> \<bar>b\<bar>" "\<bar>b\<bar> \<le> pow2 L2"
    by (auto simp: mag_def)
  have "pow2 (- L1) * pow2 (- L2) \<le> \<bar>a\<bar> * \<bar>b\<bar>"
    using a(1) b(1) by (intro mult_mono) simp_all
  moreover have "\<bar>a\<bar> * \<bar>b\<bar> \<le> pow2 L1 * pow2 L2"
    using a(2) b(2) by (intro mult_mono) simp_all
  moreover have "pow2 (- (L1 + L2)) = pow2 (- L1) * pow2 (- L2)"
    using pow2_add [of "- L1" "- L2"] by simp
  ultimately show ?thesis
    by (intro magI) (simp_all add: abs_mult pow2_add)
qed

lemma mag_inverse:
  assumes "mag L b" and "b \<noteq> 0"
  shows "mag L (1 / b)"
proof -
  from assms have b: "pow2 (- L) \<le> \<bar>b\<bar>" "\<bar>b\<bar> \<le> pow2 L" by (auto simp: mag_def)
  have p: "0 < \<bar>b\<bar>" using assms(2) by simp
  have "1 / pow2 L \<le> 1 / \<bar>b\<bar>" using b(2) p by (intro divide_left_mono) simp_all
  moreover have "1 / \<bar>b\<bar> \<le> 1 / pow2 (- L)" using b(1) p by (intro divide_left_mono) simp_all
  moreover have "1 / pow2 L = pow2 (- L)" "1 / pow2 (- L) = pow2 L"
    using pow2_diff [of 0 L] pow2_diff [of 0 "- L"] by simp_all
  ultimately show ?thesis by (intro magI) simp_all
qed

lemma mag_div:
  assumes "mag L1 a" and "mag L2 b" and "b \<noteq> 0"
  shows "mag (L1 + L2) (a / b)"
  using mag_mult [OF assms(1) mag_inverse [OF assms(2,3)]] by simp

lemma mag_sqrt:
  assumes "mag L a" and "0 \<le> a" and "0 \<le> L"
  shows "mag L (sqrt a)"
proof (cases "a = 0")
  case False
  with assms have a: "pow2 (- L) \<le> a" "a \<le> pow2 L" by (auto simp: mag_def)
  have le1: "pow2 (- L) \<le> 1" using assms(3) by (intro pow2_le_one) simp
  have ge1: "1 \<le> pow2 L" using assms(3) pow2_le_iff [of 0 L] by simp
  have "pow2 (- L) * pow2 (- L) \<le> pow2 (- L) * 1"
    using le1 by (intro mult_left_mono) simp_all
  then have "pow2 (- L) * pow2 (- L) \<le> a" using a(1) by linarith
  then have "(pow2 (- L))\<^sup>2 \<le> a" by (simp only: power2_eq_square)
  then have lo: "pow2 (- L) \<le> sqrt a" by (intro real_le_rsqrt)
  have "pow2 L * 1 \<le> pow2 L * pow2 L" using ge1 by (intro mult_left_mono) simp_all
  then have "a \<le> pow2 L * pow2 L" using a(2) by linarith
  then have "a \<le> (pow2 L)\<^sup>2" by (simp only: power2_eq_square)
  then have hi: "sqrt a \<le> pow2 L" by (intro real_le_lsqrt) simp_all
  show ?thesis using lo hi assms(2) by (intro magI) simp_all
qed simp

lemma mag_add:
  assumes "mag L a" and "mag L b" and "0 \<le> a" and "0 \<le> b"
  shows "mag (L + 1) (a + b)"
proof (cases "a = 0")
  case True
  then show ?thesis using mag_mono [OF assms(2), of "L + 1"] by simp
next
  case False
  note a0 = this
  show ?thesis
  proof (cases "b = 0")
    case True
    then show ?thesis using mag_mono [OF assms(1), of "L + 1"] by simp
  next
    case False
    with a0 assms have a: "pow2 (- L) \<le> a" "a \<le> pow2 L" and b: "pow2 (- L) \<le> b" "b \<le> pow2 L"
      by (auto simp: mag_def)
    have "pow2 (- (L + 1)) \<le> pow2 (- L)" by simp
    then have "pow2 (- (L + 1)) \<le> a + b" using a(1) assms(4) by linarith
    moreover have "a + b \<le> pow2 (L + 1)" using a(2) b(2) by (simp add: pow2_Suc)
    ultimately show ?thesis using assms(3,4) by (intro magI) simp_all
  qed
qed

subsection \<open>Rounding keeps a relative error\<close>

lemma approx_round:
  assumes "approx n a b" and "n \<le> 1000" and "mag 1021 b"
  shows "\<exists>v. round64 a = Inr v \<and> approx (n + 1) v b"
proof (cases "b = 0")
  case True
  with assms(1) have "a = 0" by (simp add: approx_zero)
  with True show ?thesis by simp
next
  case False
  with assms(3) have b: "pow2 (- 1021) \<le> \<bar>b\<bar>" "\<bar>b\<bar> \<le> pow2 1021" by (auto simp: mag_def)
  have "\<exists>v. round64 a = Inr v \<and> \<bar>v - a\<bar> \<le> (2 * \<bar>b\<bar>) * pow2 (- 53)"
  proof (rule round64_err)
    show "\<bar>a\<bar> \<le> 2 * \<bar>b\<bar>" using assms(1,2) by (rule approx_abs_le)
    have "pow2 (- 1022) \<le> pow2 (- 1021)" by simp
    then show "pow2 (- 1022) \<le> 2 * \<bar>b\<bar>" using b(1) by linarith
    have "2 * \<bar>b\<bar> \<le> pow2 (1021 + 1)" using b(2) by (simp only: pow2_Suc)
    also have "\<dots> \<le> pow2 1023" by simp
    finally show "2 * \<bar>b\<bar> \<le> pow2 1023" .
  qed
  then obtain v where v: "round64 a = Inr v" "\<bar>v - a\<bar> \<le> (2 * \<bar>b\<bar>) * pow2 (- 53)" by blast
  have "(2 * \<bar>b\<bar>) * pow2 (- 53) = pow2 (- 52) * \<bar>b\<bar>"
    using pow2_Suc [of "- 53"] by simp
  with v(2) have "\<bar>v - a\<bar> \<le> pow2 (- 52) * \<bar>b\<bar>" by simp
  moreover have "\<bar>a - b\<bar> \<le> real n * pow2 (- 52) * \<bar>b\<bar>" using assms(1) by (simp add: approx_def)
  moreover have "real (n + 1) * pow2 (- 52) * \<bar>b\<bar> = real n * pow2 (- 52) * \<bar>b\<bar> + pow2 (- 52) * \<bar>b\<bar>"
    by (simp add: algebra_simps)
  ultimately have "\<bar>v - b\<bar> \<le> real (n + 1) * pow2 (- 52) * \<bar>b\<bar>" by linarith
  then show ?thesis using v(1) by (simp add: approx_def)
qed

lemma fmul_approx:
  assumes "approx n a b" and "approx m c d" and "n \<le> 400" and "m \<le> 400"
    and "mag 1021 (b * d)"
  shows "\<exists>v. fmul (Inr a) (Inr c) = Inr v \<and> approx (n + m + 2) v (b * d)"
proof -
  have "approx (n + m + 1) (a * c) (b * d)"
    using assms(1-4) by (intro approx_mult) simp_all
  then have "\<exists>v. round64 (a * c) = Inr v \<and> approx (n + m + 1 + 1) v (b * d)"
    using assms(3-5) by (intro approx_round) simp_all
  then show ?thesis by simp
qed

lemma fsquare_approx:
  assumes "approx n a b" and "n \<le> 400" and "mag 1021 (b * b)"
  shows "\<exists>v. fsquare (Inr a) = Inr v \<and> approx (n + n + 2) v (b * b)"
  unfolding fsquare_def using assms by (intro fmul_approx) simp_all

lemma fdiv_approx:
  assumes "approx n a b" and "approx m c d" and "n \<le> 400" and "m \<le> 400"
    and "d \<noteq> 0" and "mag 1021 (b / d)"
  shows "\<exists>v. fdiv (Inr a) (Inr c) = Inr v \<and> approx (n + m + 2) v (b / d)"
proof -
  have cz: "c \<noteq> 0" using approx_sgn(3) [OF assms(2)] assms(4,5) by simp
  have "approx (n + m + 1) (a / c) (b / d)"
    using assms(1-4) by (intro approx_div) simp_all
  then have "\<exists>v. round64 (a / c) = Inr v \<and> approx (n + m + 1 + 1) v (b / d)"
    using assms(3,4,6) by (intro approx_round) simp_all
  then show ?thesis using cz by simp
qed

lemma fadd_approx:
  assumes "approx n a b" and "approx n c d" and "n \<le> 400" and "0 \<le> b" and "0 \<le> d"
    and "mag 1021 (b + d)"
  shows "\<exists>v. fadd (Inr a) (Inr c) = Inr v \<and> approx (n + 1) v (b + d)"
proof -
  have "approx n (a + c) (b + d)" using assms(1,2,4,5) by (rule approx_add)
  then have "\<exists>v. round64 (a + c) = Inr v \<and> approx (n + 1) v (b + d)"
    using assms(3,6) by (intro approx_round) simp_all
  then show ?thesis by simp
qed

lemma np_sqrt_approx:
  assumes "approx n a b" and "n \<le> 400" and "0 \<le> b" and "mag 1021 (sqrt b)"
  shows "\<exists>v. np_sqrt (Inr a) = Inr v \<and> approx (n + 1) v (sqrt b)"
proof -
  have a0: "0 \<le> a" using approx_sgn(2) [OF assms(1)] assms(2,3) by simp
  have "approx n (sqrt a) (sqrt b)" using assms(1-3) by (intro approx_sqrt) simp_all
  then have "\<exists>v. round64 (sqrt a) = Inr v \<and> approx (n + 1) v (sqrt b)"
    using assms(2,4) by (intro approx_round) simp_all
  then show ?thesis using a0 by simp
qed

subsection \<open>Results of rounding are non-negative for non-negative arguments\<close>

lemma round64_nonneg: "round64 r = Inr v \<Longrightarrow> 0 \<le> r \<Longrightarrow> 0 \<le> v"
  by (simp add: round64_Inr_iff rval_nonneg)

lemma round64_err_num:
  assumes "\<bar>r\<bar> \<le> 2 ^ k" and "k \<le> 1000"
  shows "\<exists>v. round64 r = Inr v \<and> \<bar>v - r\<bar> \<le> 2 ^ k * pow2 (- 53)"
proof (rule round64_err)
  show "\<bar>r\<bar> \<le> 2 ^ k" by fact
  have "pow2 (- 1022) \<le> 1" by (intro pow2_le_one) simp
  also have "(1::real) \<le> 2 ^ k" by simp
  finally show "pow2 (- 1022) \<le> 2 ^ k" .
  have "(2::real) ^ k = pow2 (int k)" by (simp add: pow2_nat)
  also have "\<dots> \<le> pow2 1023" using assms(2) by simp
  finally show "(2::real) ^ k \<le> pow2 1023" .
qed

subsection \<open>The separation\<close>

lemma sep_approx:
  assumes "mag 500 (spec_sep x y)"
  shows "\<exists>v. sep (convert_params x y f ex ey ef sigma) = Inr v \<and> approx 3 v (spec_sep x y)"
proof (cases "spec_sep x y = 0")
  case True
  then have "x = 0" "y = 0" by (simp_all add: spec_sep_def sum_power2_eq_zero_iff)
  then show ?thesis by (simp add: sep_field spec_sep_def)
next
  case False
  define q where "q = x\<^sup>2 + y\<^sup>2"
  have s: "spec_sep x y = sqrt q" by (simp add: spec_sep_def q_def)
  have q0: "0 \<le> q" by (simp add: q_def)
  have "mag (500 + 500) (spec_sep x y * spec_sep x y)" using assms assms by (rule mag_mult)
  moreover have "spec_sep x y * spec_sep x y = q" using q0 by (simp add: s)
  moreover have "q \<noteq> 0" using False by (simp add: s)
  ultimately have qb: "pow2 (- 1000) \<le> q" "q \<le> pow2 1000" using q0 by (auto simp: mag_def)
  have lo: "pow2 (- 1022) \<le> q" using qb(1) pow2_le_iff [of "- 1022" "- 1000"] by linarith
  have hi: "q \<le> pow2 1023" using qb(2) pow2_le_iff [of 1000 1023] by linarith
  have "\<bar>x * x\<bar> \<le> q" by (simp add: q_def power2_eq_square)
  then obtain X where X: "round64 (x * x) = Inr X" "\<bar>X - x * x\<bar> \<le> q * pow2 (- 53)"
    using round64_err [OF _ lo hi] by blast
  have "\<bar>y * y\<bar> \<le> q" by (simp add: q_def power2_eq_square)
  then obtain Y where Y: "round64 (y * y) = Inr Y" "\<bar>Y - y * y\<bar> \<le> q * pow2 (- 53)"
    using round64_err [OF _ lo hi] by blast
  have X0: "0 \<le> X" using X(1) by (rule round64_nonneg) simp
  have Y0: "0 \<le> Y" using Y(1) by (rule round64_nonneg) simp
  have e53: "pow2 (- 53) \<le> 1 / 4" by (simp add: pow2_neg_numeral)
  have e52: "2 * pow2 (- 53) = pow2 (- 52)" using pow2_Suc [of "- 53"] by simp
  have qe: "0 \<le> q * pow2 (- 53)" using q0 by simp
  have "q * pow2 (- 53) \<le> q * (1 / 4)" using e53 q0 by (intro mult_left_mono)
  then have q4: "q * pow2 (- 53) \<le> q / 4" by simp
  have xy: "X + Y - q = (X - x * x) + (Y - y * y)" by (simp add: q_def power2_eq_square)
  have d1: "\<bar>X + Y - q\<bar> \<le> 2 * (q * pow2 (- 53))" using X(2) Y(2) xy by linarith
  have "\<bar>X + Y\<bar> \<le> 2 * q" using d1 q4 q0 by linarith
  moreover have "pow2 (- 1022) \<le> 2 * q" using lo q0 by linarith
  moreover have "2 * q \<le> pow2 1023"
  proof -
    have "2 * q \<le> pow2 (1000 + 1)" using qb(2) by (simp only: pow2_Suc)
    also have "\<dots> \<le> pow2 1023" by simp
    finally show ?thesis .
  qed
  ultimately obtain S where S: "round64 (X + Y) = Inr S" "\<bar>S - (X + Y)\<bar> \<le> 2 * q * pow2 (- 53)"
    using round64_err by blast
  have S0: "0 \<le> S" using S(1) by (rule round64_nonneg) (use X0 Y0 in simp)
  have "\<bar>S - q\<bar> \<le> 4 * (q * pow2 (- 53))" using S(2) d1 by linarith
  also have "\<dots> = real 2 * pow2 (- 52) * \<bar>q\<bar>" using q0 e52 by simp
  finally have aS: "approx 2 S q" by (simp add: approx_def)
  have "mag 1021 (sqrt q)" using assms by (simp add: s [symmetric] mag_mono)
  with aS q0 have "\<exists>v. np_sqrt (Inr S) = Inr v \<and> approx (2 + 1) v (sqrt q)"
    by (intro np_sqrt_approx) simp_all
  then show ?thesis
    by (simp add: sep_field fsquare_Inr X(1) Y(1) S(1) s)
qed

subsection \<open>The position angle\<close>

lemma arctan2_bounds: "- pi < arctan2 x1 x2 \<and> arctan2 x1 x2 \<le> pi"
proof -
  have a: "- (pi / 2) < arctan (x1 / x2)" "arctan (x1 / x2) < pi / 2"
    using arctan_bounded [of "x1 / x2"] by simp_all
  consider "0 < x2" | "x2 < 0" "0 \<le> x1" | "x2 < 0" "x1 < 0" | "x2 = 0" by linarith
  then show ?thesis
  proof cases
    case 1
    then have "arctan2 x1 x2 = arctan (x1 / x2)" by (simp add: arctan2_def)
    then show ?thesis using a pi_gt_zero by linarith
  next
    case 2
    then have "x1 / x2 \<le> 0" by (simp add: divide_le_0_iff)
    then have "arctan (x1 / x2) \<le> 0" by (simp only: arctan_le_zero_iff)
    moreover have "arctan2 x1 x2 = arctan (x1 / x2) + pi" using 2 by (simp add: arctan2_def)
    ultimately show ?thesis using a pi_gt_zero by linarith
  next
    case 3
    then have "0 < x1 / x2" by (simp add: zero_less_divide_iff)
    then have "0 < arctan (x1 / x2)" by (simp only: zero_less_arctan_iff)
    moreover have "arctan2 x1 x2 = arctan (x1 / x2) - pi" using 3 by (simp add: arctan2_def)
    ultimately show ?thesis using a pi_gt_zero by linarith
  next
    case 4
    then have "arctan2 x1 x2 = pi / 2 \<or> arctan2 x1 x2 = - (pi / 2) \<or> arctan2 x1 x2 = 0"
      by (simp add: arctan2_def)
    then show ?thesis
    proof (elim disjE)
      assume "arctan2 x1 x2 = pi / 2"
      then show ?thesis using pi_gt_zero by linarith
    next
      assume "arctan2 x1 x2 = - (pi / 2)"
      then show ?thesis using pi_gt_zero by linarith
    next
      assume "arctan2 x1 x2 = 0"
      then show ?thesis using pi_gt_zero by linarith
    qed
  qed
qed

lemma arctan2_abs_le: "\<bar>arctan2 x1 x2\<bar> \<le> 4"
  using arctan2_bounds [of x1 x2] pi_less_4 by linarith

lemma rad2deg_const_approx:
  "\<exists>c. fdiv (Inr 180) (round64 pi) = Inr c \<and> approx 3 c (180 / pi)"
proof -
  have mp: "mag 1021 pi"
  proof (rule magI)
    have "pow2 (- 1021) \<le> 1" by (intro pow2_le_one) simp
    then show "pow2 (- 1021) \<le> \<bar>pi\<bar>" using pi_ge_two by simp
    have "(4::real) = pow2 2" by (simp add: pow2_numeral)
    also have "\<dots> \<le> pow2 1021" by simp
    finally show "\<bar>pi\<bar> \<le> pow2 1021" using pi_less_4 by simp
  qed
  have "\<exists>v. round64 pi = Inr v \<and> approx (0 + 1) v pi"
    using mp by (intro approx_round) simp_all
  then obtain p where p: "round64 pi = Inr p" "approx 1 p pi" by auto
  have md: "mag 1021 (180 / pi)"
  proof (rule magI)
    have "pow2 (- 1021) \<le> 1" by (intro pow2_le_one) simp
    moreover have "1 \<le> 180 / pi" using pi_less_4 pi_gt_zero by (simp add: field_simps)
    ultimately show "pow2 (- 1021) \<le> \<bar>180 / pi\<bar>" by linarith
    have "180 / pi \<le> 90" using pi_ge_two by (simp add: field_simps)
    moreover have "0 \<le> 180 / pi" by simp
    moreover have "(90::real) \<le> pow2 7" by (simp add: pow2_numeral)
    moreover have "pow2 7 \<le> pow2 1021" by simp
    ultimately show "\<bar>180 / pi\<bar> \<le> pow2 1021" by linarith
  qed
  have "\<exists>v. fdiv (Inr 180) (Inr p) = Inr v \<and> approx (0 + 1 + 2) v (180 / pi)"
    using p(2) md by (intro fdiv_approx) simp_all
  then obtain c where "fdiv (Inr 180) (Inr p) = Inr c" "approx (0 + 1 + 2) c (180 / pi)"
    by blast
  moreover have "(0::nat) + 1 + 2 = 3" by simp
  ultimately have "fdiv (Inr 180) (round64 pi) = Inr c \<and> approx 3 c (180 / pi)"
    by (simp only: p(1) simp_thms)
  then show ?thesis by blast
qed

lemma pa_close:
  "\<exists>p. pa (convert_params x y f ex ey ef sigma) = Inr p \<and> \<bar>p - spec_pa x y\<bar> \<le> pow2 (- 40)"
proof -
  define a where "a = arctan2 x y"
  define e where "e = pow2 (- 52)"
  have e0: "0 \<le> e" by (simp add: e_def)
  have e53: "pow2 (- 53) = e / 2" using pow2_Suc [of "- 53"] by (simp add: e_def)
  have a4: "\<bar>a\<bar> \<le> 2 ^ 2" using arctan2_abs_le [of x y] by (simp add: a_def)
  obtain A where A: "round64 a = Inr A" "\<bar>A - a\<bar> \<le> 2 ^ 2 * pow2 (- 53)"
    using round64_err_num [OF a4] by auto
  have Aa: "\<bar>A - a\<bar> \<le> 2 * e" using A(2) by (simp add: e53)
  have es: "e \<le> 1 / 1000000" by (simp add: e_def pow2_neg_numeral)
  obtain c where c: "fdiv (Inr 180) (round64 pi) = Inr c" "approx 3 c (180 / pi)"
    using rad2deg_const_approx by blast
  have k: "0 \<le> 180 / pi" "180 / pi \<le> 90"
    using pi_ge_two pi_gt_zero by (simp_all add: field_simps)
  have "\<bar>c - 180 / pi\<bar> \<le> real 3 * e * \<bar>180 / pi\<bar>" using c(2) by (simp add: approx_def e_def)
  also have "\<dots> \<le> real 3 * e * 90" using k e0 by (intro mult_left_mono) simp_all
  finally have ck: "\<bar>c - 180 / pi\<bar> \<le> 270 * e" by simp
  then have c91: "\<bar>c\<bar> \<le> 91" using k es by linarith
  have "\<bar>a\<bar> \<le> 4" using a4 by simp
  then have A5: "\<bar>A\<bar> \<le> 5" using Aa es by linarith
  have "A * c - a * (180 / pi) = (A - a) * c + a * (c - 180 / pi)" by (simp add: algebra_simps)
  then have "\<bar>A * c - a * (180 / pi)\<bar> \<le> \<bar>A - a\<bar> * \<bar>c\<bar> + \<bar>a\<bar> * \<bar>c - 180 / pi\<bar>"
    by (simp add: abs_mult [symmetric]) 
  also have "\<dots> \<le> (2 * e) * 91 + 4 * (270 * e)"
    using Aa c91 a4 ck e0 by (intro add_mono mult_mono) simp_all
  finally have d1: "\<bar>A * c - a * (180 / pi)\<bar> \<le> 1262 * e" by simp
  have "\<bar>A * c\<bar> \<le> 5 * 91" unfolding abs_mult using A5 c91 by (intro mult_mono) simp_all
  then have "\<bar>A * c\<bar> \<le> 2 ^ 9" by simp
  then obtain D where D: "round64 (A * c) = Inr D" "\<bar>D - A * c\<bar> \<le> 2 ^ 9 * pow2 (- 53)"
    using round64_err_num [of "A * c" 9] by auto
  have d2: "\<bar>D - a * (180 / pi)\<bar> \<le> 1518 * e" using D(2) d1 by (simp add: e53)
  have "\<bar>a * (180 / pi)\<bar> \<le> 4 * 90" unfolding abs_mult using a4 k by (intro mult_mono) simp_all
  then have "\<bar>360 + D\<bar> \<le> 1024" using d2 es by linarith
  then have "\<bar>360 + D\<bar> \<le> 2 ^ 10" by simp
  then obtain p where p: "round64 (360 + D) = Inr p" "\<bar>p - (360 + D)\<bar> \<le> 2 ^ 10 * pow2 (- 53)"
    using round64_err_num [of "360 + D" 10] by auto
  have "\<bar>p - (360 + a * (180 / pi))\<bar> \<le> 2030 * e" using p(2) d2 by (simp add: e53)
  also have "\<dots> \<le> 4096 * e" using e0 by simp
  also have "\<dots> = pow2 (- 40)" using pow2_add [of 12 "- 52"] by (simp add: e_def pow2_numeral)
  finally have "\<bar>p - (360 + a * (180 / pi))\<bar> \<le> pow2 (- 40)" .
  moreover have "360 + a * (180 / pi) = spec_pa x y" by (simp add: spec_pa_def a_def)
  ultimately have "\<bar>p - spec_pa x y\<bar> \<le> pow2 (- 40)" by (simp only:)
  moreover have "pa (convert_params x y f ex ey ef sigma) = Inr p"
    by (simp add: pa_field np_rad2deg_def np_arctan2_def a_def [symmetric] A(1) c(1) D(1) p(1))
  ultimately show ?thesis by blast
qed

subsection \<open>The magnitude difference\<close>

lemma dm_close:
  assumes "0 < a" and "\<bar>log 10 a\<bar> \<le> 512"
  shows "\<exists>l m. np_log10 (Inr a) = Inr l \<and> round64 (- 2.5 * l) = Inr m \<and>
           mag_diff (Inr a) = Inr m \<and> \<bar>m - spec_mag_diff a\<bar> \<le> pow2 (- 40)"
proof -
  define e where "e = pow2 (- 52)"
  have e0: "0 \<le> e" by (simp add: e_def)
  have e53: "pow2 (- 53) = e / 2" using pow2_Suc [of "- 53"] by (simp add: e_def)
  have es: "e \<le> 1 / 1000000" by (simp add: e_def pow2_neg_numeral)
  have "\<bar>log 10 a\<bar> \<le> 2 ^ 9" using assms(2) by simp
  then obtain l where l: "round64 (log 10 a) = Inr l" "\<bar>l - log 10 a\<bar> \<le> 2 ^ 9 * pow2 (- 53)"
    using round64_err_num [of "log 10 a" 9] by auto
  have l1: "\<bar>l - log 10 a\<bar> \<le> 256 * e" using l(2) by (simp add: e53)
  then have "\<bar>- 2.5 * l\<bar> \<le> 2 ^ 11" using assms(2) es by simp
  then obtain m where m: "round64 (- 2.5 * l) = Inr m" "\<bar>m - (- 2.5 * l)\<bar> \<le> 2 ^ 11 * pow2 (- 53)"
    using round64_err_num [of "- 2.5 * l" 11] by auto
  have "\<bar>m - (- 2.5 * log 10 a)\<bar> \<le> 1664 * e" using m(2) l1 by (simp add: e53)
  also have "\<dots> \<le> 4096 * e" using e0 by simp
  also have "\<dots> = pow2 (- 40)" using pow2_add [of 12 "- 52"] by (simp add: e_def pow2_numeral)
  finally have "\<bar>m - spec_mag_diff a\<bar> \<le> pow2 (- 40)" by (simp add: spec_mag_diff_def)
  moreover have "np_log10 (Inr a) = Inr l" using assms(1) l(1) by simp
  moreover have "mag_diff (Inr a) = Inr m" using assms(1) l(1) m(1) by (simp add: mag_diff_def)
  ultimately show ?thesis using m(1) by blast
qed

lemma log10_2_le: "log 10 2 \<le> 1 / 3"
proof -
  have "log 10 (2 ^ 3) = real 3 * log 10 2" by (rule log_nat_power) simp
  moreover have "log 10 (2 ^ 3) \<le> log 10 10" by (subst log_le_cancel_iff) simp_all
  ultimately show ?thesis by simp
qed

lemma log10_pow2: "log 10 (pow2 e) = of_int e * log 10 2"
  by (simp add: pow2_def log_powr)

lemma log10_double_range:
  assumes "pow2 (- 1074) \<le> a" and "a \<le> pow2 1024"
  shows "\<bar>log 10 a\<bar> \<le> 512"
proof -
  have a0: "0 < a" using assms(1) pow2_pos [of "- 1074"] by linarith
  have l2: "0 \<le> log 10 2" by simp
  have "log 10 (pow2 (- 1074)) \<le> log 10 a" using assms(1) a0 by (intro log_mono) simp_all
  then have lo: "- 1074 * log 10 2 \<le> log 10 a" by (simp add: log10_pow2)
  have "log 10 a \<le> log 10 (pow2 1024)" using assms(2) a0 by (intro log_mono) simp_all
  then have hi: "log 10 a \<le> 1024 * log 10 2" by (simp add: log10_pow2)
  show ?thesis using lo hi log10_2_le l2 by linarith
qed

lemma mag_diff_finite:
  assumes "pow2 (- 1074) \<le> a" and "a \<le> pow2 1024"
  shows "\<exists>m. mag_diff (Inr a) = Inr m \<and> \<bar>m - spec_mag_diff a\<bar> \<le> pow2 (- 40)"
proof -
  have "0 < a" using assms(1) pow2_pos [of "- 1074"] by linarith
  then show ?thesis using dm_close [OF _ log10_double_range [OF assms]] by blast
qed

lemma isl_mag_diff:
  assumes "a \<le> 0 \<or> pow2 (- 1074) \<le> a \<and> a \<le> pow2 1024"
  shows "isl (mag_diff (Inr a)) \<longleftrightarrow> a \<le> 0"
proof (cases "a \<le> 0")
  case True
  then show ?thesis by (simp add: mag_diff_def)
next
  case False
  with assms have r: "pow2 (- 1074) \<le> a" "a \<le> pow2 1024" by simp_all
  obtain m where "mag_diff (Inr a) = Inr m" using mag_diff_finite [OF r] by blast
  then show ?thesis using False by simp
qed

lemma isl_mag_diff_special [simp]: "isl (mag_diff (Inl s))"
  by (cases s) (simp_all add: mag_diff_def)

lemma fmul_Inl_right: "isl (fmul (Inr a) (Inl s))"
  by (cases s) simp_all

lemma mag_diff_antimono:
  assumes "0 < a1" and "a1 \<le> a2" and "mag_diff (Inr a1) = Inr m1" and "mag_diff (Inr a2) = Inr m2"
  shows "m2 \<le> m1"
proof -
  have a2: "0 < a2" using assms(1,2) by simp
  have "\<not> isl (fmul (Inr (- 2.5)) (round64 (log 10 a1)))"
    using assms(3,1) by (simp add: mag_diff_def)
  then obtain l1 where l1: "round64 (log 10 a1) = Inr l1"
    using fmul_Inl_right [of "- 2.5"] by (cases "round64 (log 10 a1)") auto
  have "\<not> isl (fmul (Inr (- 2.5)) (round64 (log 10 a2)))"
    using assms(4) a2 by (simp add: mag_diff_def)
  then obtain l2 where l2: "round64 (log 10 a2) = Inr l2"
    using fmul_Inl_right [of "- 2.5"] by (cases "round64 (log 10 a2)") auto
  have "log 10 a1 \<le> log 10 a2" using assms(1,2) by (intro log_mono) simp_all
  then have "l1 \<le> l2" using l1 l2 by (rule round64_mono)
  then have "- 2.5 * l2 \<le> - 2.5 * l1" by simp
  moreover have "round64 (- 2.5 * l2) = Inr m2" using assms(4) a2 l2 by (simp add: mag_diff_def)
  moreover have "round64 (- 2.5 * l1) = Inr m1" using assms(3,1) l1 by (simp add: mag_diff_def)
  ultimately show ?thesis by (rule round64_mono)
qed

section \<open>The angle function and the worked scenario\<close>

subsection \<open>The quadrants of \<open>arctan2\<close>\<close>

lemma arctan2_quad_right: "0 < x2 \<Longrightarrow> arctan2 x1 x2 = arctan (x1 / x2)"
  by (simp add: arctan2_def)

lemma arctan2_quad_upper_left:
  "x2 < 0 \<Longrightarrow> 0 \<le> x1 \<Longrightarrow> arctan2 x1 x2 = arctan (x1 / x2) + pi"
  by (simp add: arctan2_def)

lemma arctan2_quad_lower_left:
  "x2 < 0 \<Longrightarrow> x1 < 0 \<Longrightarrow> arctan2 x1 x2 = arctan (x1 / x2) - pi"
  by (simp add: arctan2_def)

lemma arctan2_quad_up: "0 < x1 \<Longrightarrow> arctan2 x1 0 = pi / 2"
  by (simp add: arctan2_def)

lemma arctan2_quad_down: "x1 < 0 \<Longrightarrow> arctan2 x1 0 = - (pi / 2)"
  by (simp add: arctan2_def)

lemma tan_scaled: "s \<noteq> 0 \<Longrightarrow> s * sin t / (s * cos t) = tan t" for s t :: real
  by (simp add: tan_def)

text \<open>
  \<open>arctan2\<close> recovers the angle of a point given in polar form, measured from the
  second argument's axis: first on each open arc, then on the whole half-open turn.
\<close>

lemma arctan2_right_half:
  assumes s: "0 < s" and t: "- (pi / 2) < t" "t < pi / 2"
  shows "arctan2 (s * sin t) (s * cos t) = t"
proof -
  have "0 < cos t" using t by (rule cos_gt_zero_pi)
  with s have "0 < s * cos t" by simp
  then have "arctan2 (s * sin t) (s * cos t) = arctan (s * sin t / (s * cos t))"
    by (rule arctan2_quad_right)
  also have "s * sin t / (s * cos t) = tan t" using s by (intro tan_scaled) simp
  also have "arctan (tan t) = t" using t by (rule arctan_tan)
  finally show ?thesis .
qed

lemma arctan2_upper_left:
  assumes s: "0 < s" and t: "pi / 2 < t" "t \<le> pi"
  shows "arctan2 (s * sin t) (s * cos t) = t"
proof -
  have "0 < cos (t - pi)" using t by (intro cos_gt_zero_pi) simp_all
  then have "cos t < 0" by (simp add: cos_diff)
  with s have c: "s * cos t < 0" by (simp add: mult_less_0_iff)
  have "0 < t" using t pi_half_gt_zero by linarith
  then have "0 \<le> sin t" using t by (intro sin_ge_zero) simp_all
  with s have "0 \<le> s * sin t" by simp
  with c have "arctan2 (s * sin t) (s * cos t) = arctan (s * sin t / (s * cos t)) + pi"
    by (rule arctan2_quad_upper_left)
  also have "s * sin t / (s * cos t) = tan t" using s by (intro tan_scaled) simp
  also have "tan t = tan ((t - pi) + pi)" by simp
  also have "\<dots> = tan (t - pi)" by (rule tan_periodic_pi)
  also have "arctan (tan (t - pi)) = t - pi" using t by (intro arctan_tan) simp_all
  finally show ?thesis by simp
qed

lemma arctan2_lower_left:
  assumes s: "0 < s" and t: "- pi < t" "t < - (pi / 2)"
  shows "arctan2 (s * sin t) (s * cos t) = t"
proof -
  have "0 < cos (t + pi)" using t by (intro cos_gt_zero_pi) simp_all
  then have "cos t < 0" by (simp add: cos_add)
  with s have c: "s * cos t < 0" by (simp add: mult_less_0_iff)
  have "0 < sin (t + pi)" using t by (intro sin_gt_zero2) simp_all
  then have "sin t < 0" by (simp add: sin_add)
  with s have "s * sin t < 0" by (simp add: mult_less_0_iff)
  with c have "arctan2 (s * sin t) (s * cos t) = arctan (s * sin t / (s * cos t)) - pi"
    by (rule arctan2_quad_lower_left)
  also have "s * sin t / (s * cos t) = tan t" using s by (intro tan_scaled) simp
  also have "tan t = tan (t + pi)" by simp
  also have "arctan (tan (t + pi)) = t + pi" using t by (intro arctan_tan) simp_all
  finally show ?thesis by simp
qed

lemma arctan2_polar:
  assumes s: "0 < s" and t: "- pi < t" "t \<le> pi"
  shows "arctan2 (s * sin t) (s * cos t) = t"
proof -
  consider "t < - (pi / 2)" | "t = - (pi / 2)" | "- (pi / 2) < t" "t < pi / 2"
    | "t = pi / 2" | "pi / 2 < t"
    by linarith
  then show ?thesis
  proof cases
    case 1
    with s t show ?thesis by (simp add: arctan2_lower_left)
  next
    case 2
    show ?thesis unfolding 2 using s by (simp add: arctan2_quad_down)
  next
    case 3
    with s show ?thesis by (simp add: arctan2_right_half)
  next
    case 4
    show ?thesis unfolding 4 using s by (simp add: arctan2_quad_up)
  next
    case 5
    with s t show ?thesis by (simp add: arctan2_upper_left)
  qed
qed

lemma arctan2_sin_cos_cong:
  assumes s: "0 < s"
  shows "\<exists>n::int. arctan2 (s * sin t) (s * cos t) = t + 2 * pi * of_int n"
proof -
  obtain u where u: "- pi < u" "u \<le> pi" and sc: "sin u = sin t \<and> cos u = cos t"
    using sincos_principal_value[of t] by blast
  from sc obtain n :: int where n: "u = t + 2 * pi * of_int n"
    unfolding sin_cos_eq_iff by blast
  have "arctan2 (s * sin u) (s * cos u) = u" using s u by (rule arctan2_polar)
  with sc n show ?thesis by auto
qed

lemma sep_polar:
  assumes "0 < s"
  shows "sqrt ((s * sin t)\<^sup>2 + (s * cos t)\<^sup>2) = s"
proof -
  have "(s * sin t)\<^sup>2 + (s * cos t)\<^sup>2 = s\<^sup>2 * ((sin t)\<^sup>2 + (cos t)\<^sup>2)"
    by (simp only: power_mult_distrib distrib_left)
  also have "\<dots> = s\<^sup>2" by simp
  finally show ?thesis using assms by simp
qed

subsection \<open>Numeric bounds for the worked scenario\<close>

lemma arctan_le_self:
  assumes "0 \<le> x"
  shows "arctan x \<le> x"
proof -
  have "(\<lambda>u. u - arctan u) 0 \<le> (\<lambda>u. u - arctan u) x"
  proof (rule DERIV_nonneg_imp_nondecreasing [OF assms])
    fix u :: real
    have "DERIV (\<lambda>u. u - arctan u) u :> 1 - inverse (1 + u\<^sup>2)"
      by (auto intro!: derivative_eq_intros simp: field_simps)
    moreover have "inverse (1 + u\<^sup>2) \<le> 1"
      by (rule inverse_le_1_iff[THEN iffD2]) simp
    ultimately show "\<exists>d. DERIV (\<lambda>u. u - arctan u) u :> d \<and> 0 \<le> d"
      by (intro exI[of _ "1 - inverse (1 + u\<^sup>2)"]) simp
  qed
  then show ?thesis by simp
qed

lemma tan_three_eighths_pi: "tan (3 * pi / 8) = 1 + sqrt 2"
proof -
  have "sin (3 * pi / 4) = sin (pi - pi / 4)" by simp
  also have "\<dots> = sqrt 2 / 2" by (simp only: sin_pi_minus sin_45)
  finally have s: "sin (3 * pi / 4) = sqrt 2 / 2" .
  have "cos (3 * pi / 4) = cos (pi - pi / 4)" by simp
  also have "\<dots> = - (sqrt 2 / 2)" by (simp only: cos_pi_minus cos_45)
  finally have c: "cos (3 * pi / 4) = - (sqrt 2 / 2)" .
  have "tan (3 * pi / 8) = sin (2 * (3 * pi / 8)) / (cos (2 * (3 * pi / 8)) + 1)"
    by (rule tan_half)
  also have "2 * (3 * pi / 8) = 3 * pi / 4" by simp
  finally have "tan (3 * pi / 8) = (sqrt 2 / 2) / (1 - sqrt 2 / 2)"
    by (simp add: s c)
  also have "\<dots> = 1 + sqrt 2"
  proof -
    have "sqrt 2 < 2" by (rule real_less_lsqrt) simp_all
    then have nz: "1 - sqrt 2 / 2 \<noteq> 0" by simp
    have "(1 + sqrt 2) * (1 - sqrt 2 / 2) = sqrt 2 / 2"
      by (simp add: algebra_simps)
    then show ?thesis using nz by (simp add: field_simps)
  qed
  finally show ?thesis .
qed

lemma sqrt2_bounds: "1514 / 1073 < sqrt 2" "sqrt 2 < 14143 / 10000"
proof -
  show "1514 / 1073 < sqrt 2" by (rule real_less_rsqrt) (simp add: power2_eq_square)
  show "sqrt 2 < 14143 / 10000" by (rule real_less_lsqrt) (simp_all add: power2_eq_square)
qed

lemma arctan_scenario_upper: "arctan (2587 / 1073) < 3 * pi / 8"
proof -
  have "(2587 / 1073 :: real) < 1 + sqrt 2" using sqrt2_bounds(1) by simp
  then have "arctan (2587 / 1073) < arctan (tan (3 * pi / 8))"
    by (simp only: arctan_less_iff tan_three_eighths_pi)
  also have "arctan (tan (3 * pi / 8)) = 3 * pi / 8"
    by (rule arctan_tan) simp_all
  finally show ?thesis .
qed

lemma arctan_scenario_lower: "3 * pi / 8 - 1 / 2000 < arctan (2587 / 1073)"
proof -
  define th where "th = arctan (2587 / 1073)"
  define dl where "dl = 3 * pi / 8 - th"
  have th_pos: "0 < th" unfolding th_def by simp
  have th_up: "th < 3 * pi / 8" unfolding th_def by (rule arctan_scenario_upper)
  have dl_pos: "0 < dl" and dl_up: "dl < pi / 2"
    using th_pos th_up unfolding dl_def by simp_all
  have tan_th: "tan th = 2587 / 1073" unfolding th_def by (rule tan_arctan)
  have c1: "cos (3 * pi / 8) \<noteq> 0"
    using cos_gt_zero_pi [of "3 * pi / 8"] by simp
  have c2: "cos th \<noteq> 0"
    unfolding th_def by (rule cos_arctan_not_zero)
  have c3: "cos (3 * pi / 8 - th) \<noteq> 0"
    using cos_gt_zero_pi [of dl] dl_pos dl_up unfolding dl_def by simp
  have "tan dl = (tan (3 * pi / 8) - tan th) / (1 + tan (3 * pi / 8) * tan th)"
    unfolding dl_def using c1 c2 c3 by (rule tan_diff)
  also have "\<dots> = (1 + sqrt 2 - 2587 / 1073) / (1 + (1 + sqrt 2) * (2587 / 1073))"
    by (simp only: tan_three_eighths_pi tan_th)
  also have "\<dots> < 1 / 2000"
    using sqrt2_bounds by (simp add: field_simps)
  finally have t: "tan dl < 1 / 2000" .
  have "0 \<le> tan dl" using dl_pos dl_up by (intro tan_pos_pi2_le) simp_all
  then have "arctan (tan dl) \<le> tan dl" by (rule arctan_le_self)
  moreover have "arctan (tan dl) = dl" using dl_pos dl_up by (intro arctan_tan) simp_all
  ultimately have "dl < 1 / 2000" using t by simp
  then show ?thesis unfolding dl_def th_def by simp
qed

lemma arctan_scenario_degrees:
  "67.455 < 180 / pi * arctan (2587 / 1073)" "180 / pi * arctan (2587 / 1073) < 67.5"
proof -
  have "arctan (2587 / 1073) * (180 / pi) < 3 * pi / 8 * (180 / pi)"
    using arctan_scenario_upper by (intro mult_strict_right_mono) simp_all
  then show "180 / pi * arctan (2587 / 1073) < 67.5"
    by (simp add: mult.commute)
  have "(1 / 2000) * (180 / pi) \<le> 45 / 1000"
    using pi_ge_two by (simp add: field_simps)
  moreover have "(3 * pi / 8 - 1 / 2000) * (180 / pi) < arctan (2587 / 1073) * (180 / pi)"
    using arctan_scenario_lower by (intro mult_strict_right_mono) simp_all
  moreover have "(3 * pi / 8 - 1 / 2000) * (180 / pi) = 67.5 - (1 / 2000) * (180 / pi)"
    by (simp add: field_simps)
  ultimately show "67.455 < 180 / pi * arctan (2587 / 1073)"
    by (simp add: mult.commute)
qed

lemma pa_scenario_east:
  "427.455 < spec_pa 258.7 107.3" "spec_pa 258.7 107.3 < 427.5"
proof -
  have "arctan2 258.7 107.3 = arctan (2587 / 1073)"
    by (simp add: arctan2_def)
  then show "427.455 < spec_pa 258.7 107.3" and "spec_pa 258.7 107.3 < 427.5"
    using arctan_scenario_degrees by (simp_all add: spec_pa_def)
qed

lemma pa_scenario_west:
  "292.5 < spec_pa (- 258.7) 107.3" "spec_pa (- 258.7) 107.3 < 292.545"
proof -
  have "arctan2 (- 258.7) 107.3 = - arctan (2587 / 1073)"
    by (simp add: arctan2_def arctan_minus)
  then show "292.5 < spec_pa (- 258.7) 107.3" and "spec_pa (- 258.7) 107.3 < 292.545"
    using arctan_scenario_degrees by (simp_all add: spec_pa_def)
qed

lemma sep_scenario_bounds:
  "280.06 < sqrt (258.7\<^sup>2 + 107.3\<^sup>2)" "sqrt (258.7\<^sup>2 + 107.3\<^sup>2) < (280.07::real)"
proof -
  show "280.06 < sqrt (258.7\<^sup>2 + 107.3\<^sup>2)"
    by (rule real_less_rsqrt) (simp add: power2_eq_square)
  show "sqrt (258.7\<^sup>2 + 107.3\<^sup>2) < (280.07::real)"
    by (rule real_less_lsqrt) (simp_all add: power2_eq_square)
qed

lemma log10_gt_rat:
  fixes x :: real
  assumes "0 < x" and "0 < q" and "1 < x ^ q * 10 ^ p"
  shows "- (real p / real q) < log 10 x"
proof -
  have "(10::real) powr (- real p) < x powr (real q)"
  proof -
    have "(10::real) powr (- real p) = 1 / 10 ^ p"
      by (simp add: powr_minus powr_realpow inverse_eq_divide)
    also have "\<dots> < x ^ q" using assms(3) by (simp add: field_simps)
    also have "\<dots> = x powr (real q)" using assms(1) by (simp add: powr_realpow)
    finally show ?thesis .
  qed
  then have "log 10 (10 powr (- real p)) < log 10 (x powr real q)"
    using assms(1) by (subst log_less_cancel_iff) simp_all
  then have "- real p < real q * log 10 x"
    using assms(1) by (simp add: log_powr)
  then show ?thesis using assms(2) by (simp add: field_simps)
qed

lemma log10_lt_rat:
  fixes x :: real
  assumes "0 < x" and "0 < q" and "x ^ q * 10 ^ p < 1"
  shows "log 10 x < - (real p / real q)"
proof -
  have "x powr (real q) < (10::real) powr (- real p)"
  proof -
    have "x powr (real q) = x ^ q" using assms(1) by (simp add: powr_realpow)
    also have "\<dots> < 1 / 10 ^ p" using assms(3) by (simp add: field_simps)
    also have "\<dots> = (10::real) powr (- real p)"
      by (simp add: powr_minus powr_realpow inverse_eq_divide)
    finally show ?thesis .
  qed
  then have "log 10 (x powr real q) < log 10 (10 powr (- real p))"
    using assms(1) by (subst log_less_cancel_iff) simp_all
  then have "real q * log 10 x < - real p"
    using assms(1) by (simp add: log_powr)
  then show ?thesis using assms(2) by (simp add: field_simps)
qed

lemma dm_scenario_bounds:
  "4 < - 2.5 * log 10 (0.024::real)" "- 2.5 * log 10 (0.024::real) < 4.05"
proof -
  have "log 10 (0.024::real) < - (real 8 / real 5)"
    by (rule log10_lt_rat) (simp_all add: power_divide)
  then show "4 < - 2.5 * log 10 (0.024::real)" by simp
  have "- (real 81 / real 50) < log 10 (0.024::real)"
    by (rule log10_gt_rat) (simp_all add: power_divide)
  then show "- 2.5 * log 10 (0.024::real) < 4.05" by simp
qed

section \<open>Accuracy of the uncertainties\<close>

subsection \<open>The two uncertainties\<close>

lemma mag_square: "mag L a \<Longrightarrow> mag (L + L) (a * a)"
  by (rule mag_mult)

lemma mag_spec_sep:
  assumes "mag 64 x" and "mag 64 y"
  shows "mag 129 (spec_sep x y)"
proof -
  have "mag (128 + 1) (x * x + y * y)"
    using mag_square [OF assms(1)] mag_square [OF assms(2)]
    by (intro mag_add) simp_all
  then have "mag 129 (x\<^sup>2 + y\<^sup>2)" by (simp add: power2_eq_square)
  then show ?thesis unfolding spec_sep_def by (intro mag_sqrt) simp_all
qed

lemma spec_sep_pos: "x \<noteq> 0 \<or> y \<noteq> 0 \<Longrightarrow> 0 < spec_sep x y"
  by (auto simp: spec_sep_def sum_power2_gt_zero_iff)

lemma unc_term:
  assumes v: "approx n v d" and n: "n \<le> 20" and d: "d \<noteq> 0" and md: "mag L d"
    and L: "0 \<le> L" "L \<le> 300"
    and mz: "mag 64 z" and me: "mag 64 e"
  shows "\<exists>t. fsquare (fmul (fdiv (Inr z) (Inr v)) (Inr e)) = Inr t \<and>
             approx (2 * n + 10) t ((z / d * e) * (z / d * e)) \<and>
             mag (2 * L + 256) ((z / d * e) * (z / d * e))"
proof -
  have mq: "mag (64 + L) (z / d)" using mz md d by (rule mag_div)
  then have "mag 1021 (z / d)" by (rule mag_mono) (use L in simp)
  with v n d have "\<exists>a. fdiv (Inr z) (Inr v) = Inr a \<and> approx (0 + n + 2) a (z / d)"
    by (intro fdiv_approx) simp_all
  then obtain a where a: "fdiv (Inr z) (Inr v) = Inr a" "approx (0 + n + 2) a (z / d)"
    by blast
  have mp: "mag (64 + L + 64) (z / d * e)" using mq me by (rule mag_mult)
  then have "mag 1021 (z / d * e)" by (rule mag_mono) (use L in simp)
  with a(2) n have
    "\<exists>p. fmul (Inr a) (Inr e) = Inr p \<and> approx (0 + n + 2 + 0 + 2) p (z / d * e)"
    by (intro fmul_approx) simp_all
  then obtain p where p: "fmul (Inr a) (Inr e) = Inr p"
      "approx (0 + n + 2 + 0 + 2) p (z / d * e)" by blast
  have mt: "mag (64 + L + 64 + (64 + L + 64)) ((z / d * e) * (z / d * e))"
    using mp by (rule mag_square)
  then have m1: "mag 1021 ((z / d * e) * (z / d * e))" by (rule mag_mono) (use L in simp)
  with p(2) n have "\<exists>t. fsquare (Inr p) = Inr t \<and>
      approx (0 + n + 2 + 0 + 2 + (0 + n + 2 + 0 + 2) + 2) t ((z / d * e) * (z / d * e))"
    by (intro fsquare_approx) simp_all
  then obtain t where t: "fsquare (Inr p) = Inr t"
      "approx (0 + n + 2 + 0 + 2 + (0 + n + 2 + 0 + 2) + 2) t ((z / d * e) * (z / d * e))"
    by blast
  from t(2) have "approx (2 * n + 10) t ((z / d * e) * (z / d * e))"
    by (rule approx_mono) simp
  moreover have "mag (2 * L + 256) ((z / d * e) * (z / d * e))"
    using mt by (rule mag_mono) simp
  moreover have "fsquare (fmul (fdiv (Inr z) (Inr v)) (Inr e)) = Inr t"
    by (simp only: a(1) p(1) t(1))
  ultimately show ?thesis by blast
qed

lemma unc_root:
  assumes t1: "approx n t1 b1" and t2: "approx n t2 b2" and n: "n \<le> 60"
    and b: "0 \<le> b1" "0 \<le> b2" and m: "mag L b1" "mag L b2" and L: "0 \<le> L" "L \<le> 900"
  shows "\<exists>r. np_sqrt (fadd (Inr t1) (Inr t2)) = Inr r \<and> approx (n + 2) r (sqrt (b1 + b2)) \<and>
             mag (L + 1) (sqrt (b1 + b2))"
proof -
  have ms: "mag (L + 1) (b1 + b2)" using m b by (intro mag_add)
  then have "mag 1021 (b1 + b2)" by (rule mag_mono) (use L in simp)
  with t1 t2 n b have "\<exists>s. fadd (Inr t1) (Inr t2) = Inr s \<and> approx (n + 1) s (b1 + b2)"
    by (intro fadd_approx) simp_all
  then obtain s where s: "fadd (Inr t1) (Inr t2) = Inr s" "approx (n + 1) s (b1 + b2)" by blast
  have mr: "mag (L + 1) (sqrt (b1 + b2))" using ms b L by (intro mag_sqrt) simp_all
  then have "mag 1021 (sqrt (b1 + b2))" by (rule mag_mono) (use L in simp)
  with s(2) n b have "\<exists>r. np_sqrt (Inr s) = Inr r \<and> approx (n + 1 + 1) r (sqrt (b1 + b2))"
    by (intro np_sqrt_approx) simp_all
  then obtain r where r: "np_sqrt (Inr s) = Inr r" "approx (n + 1 + 1) r (sqrt (b1 + b2))"
    by blast
  from r(2) have "approx (n + 2) r (sqrt (b1 + b2))" by (rule approx_mono) simp
  moreover have "np_sqrt (fadd (Inr t1) (Inr t2)) = Inr r" by (simp only: s(1) r(1))
  ultimately show ?thesis using mr by blast
qed

lemma sep_unc_approx:
  assumes "mag 64 x" and "mag 64 y" and "x \<noteq> 0 \<or> y \<noteq> 0"
    and "mag 64 ex" and "mag 64 ey" and "mag 64 sigma"
  shows "\<exists>u. sep_unc (convert_params x y f ex ey ef sigma) = Inr u \<and>
             approx 24 u (spec_sep_unc x y ex ey sigma)"
proof -
  define s where "s = spec_sep x y"
  have ms: "mag 129 s" unfolding s_def using assms(1,2) by (rule mag_spec_sep)
  have sz: "s \<noteq> 0" using spec_sep_pos [OF assms(3)] by (simp add: s_def)
  have "mag 500 (spec_sep x y)" using ms unfolding s_def by (rule mag_mono) simp
  then obtain v where v: "sep (convert_params x y f ex ey ef sigma) = Inr v" "approx 3 v s"
    unfolding s_def using sep_approx by blast
  obtain t1 where t1: "fsquare (fmul (fdiv (Inr x) (Inr v)) (Inr ex)) = Inr t1"
      "approx (2 * 3 + 10) t1 ((x / s * ex) * (x / s * ex))"
      "mag (2 * 129 + 256) ((x / s * ex) * (x / s * ex))"
    using unc_term [OF v(2) _ sz ms _ _ assms(1) assms(4)] by force
  obtain t2 where t2: "fsquare (fmul (fdiv (Inr y) (Inr v)) (Inr ey)) = Inr t2"
      "approx (2 * 3 + 10) t2 ((y / s * ey) * (y / s * ey))"
      "mag (2 * 129 + 256) ((y / s * ey) * (y / s * ey))"
    using unc_term [OF v(2) _ sz ms _ _ assms(2) assms(5)] by force
  define b where "b = (x / s * ex) * (x / s * ex) + (y / s * ey) * (y / s * ey)"
  obtain r where r: "np_sqrt (fadd (Inr t1) (Inr t2)) = Inr r"
      "approx (2 * 3 + 10 + 2) r (sqrt b)" "mag (2 * 129 + 256 + 1) (sqrt b)"
    unfolding b_def using unc_root [OF t1(2) t2(2) _ _ _ t1(3) t2(3)] by auto
  have "mag (2 * 129 + 256 + 1 + 64) (sqrt b * sigma)" using r(3) assms(6) by (rule mag_mult)
  then have "mag 1021 (sqrt b * sigma)" by (rule mag_mono) simp
  with r(2) have "\<exists>u. fmul (Inr r) (Inr sigma) = Inr u \<and>
      approx (2 * 3 + 10 + 2 + 0 + 2) u (sqrt b * sigma)"
    by (intro fmul_approx) simp_all
  then obtain u where u: "fmul (Inr r) (Inr sigma) = Inr u" "approx 20 u (sqrt b * sigma)"
    by auto
  have "sqrt b * sigma = spec_sep_unc x y ex ey sigma"
    by (simp add: spec_sep_unc_def b_def s_def power2_eq_square)
  with u(2) have "approx 20 u (spec_sep_unc x y ex ey sigma)" by (simp only:)
  then have "approx 24 u (spec_sep_unc x y ex ey sigma)"
    by (rule approx_mono) simp
  moreover have "sep_unc (convert_params x y f ex ey ef sigma) = Inr u"
    by (simp only: sep_unc_field v(1) t1(1) t2(1) r(1) u(1))
  ultimately show ?thesis by blast
qed

lemma mag_rad2deg: "mag 7 (180 / pi)"
proof (rule magI)
  have "pow2 (- 7) \<le> 1" by (intro pow2_le_one) simp
  moreover have "1 \<le> 180 / pi" using pi_less_4 pi_gt_zero by (simp add: field_simps)
  ultimately show "pow2 (- 7) \<le> \<bar>180 / pi\<bar>" by linarith
  have "180 / pi \<le> 90" using pi_ge_two by (simp add: field_simps)
  moreover have "0 \<le> 180 / pi" by simp
  moreover have "(90::real) \<le> pow2 7" by (simp add: pow2_numeral)
  ultimately show "\<bar>180 / pi\<bar> \<le> pow2 7" by linarith
qed

lemma pa_unc_approx:
  assumes "mag 64 x" and "mag 64 y" and "x \<noteq> 0 \<or> y \<noteq> 0"
    and "mag 64 ex" and "mag 64 ey" and "mag 64 sigma"
  shows "\<exists>u. pa_unc (convert_params x y f ex ey ef sigma) = Inr u \<and>
             approx 40 u (180 / pi * spec_pa_unc x y ex ey sigma)"
proof -
  define s where "s = spec_sep x y"
  have ms: "mag 129 s" unfolding s_def using assms(1,2) by (rule mag_spec_sep)
  have sz: "s \<noteq> 0" using spec_sep_pos [OF assms(3)] by (simp add: s_def)
  have "mag 500 (spec_sep x y)" using ms unfolding s_def by (rule mag_mono) simp
  then obtain v where v: "sep (convert_params x y f ex ey ef sigma) = Inr v" "approx 3 v s"
    unfolding s_def using sep_approx by blast
  have mw: "mag (129 + 129) (s * s)" using ms by (rule mag_square)
  then have "mag 1021 (s * s)" by (rule mag_mono) simp
  with v(2) have "\<exists>w. fsquare (Inr v) = Inr w \<and> approx (3 + 3 + 2) w (s * s)"
    by (intro fsquare_approx) simp_all
  then obtain w where w: "fsquare (Inr v) = Inr w" "approx 8 w (s * s)" by auto
  have wz: "s * s \<noteq> 0" using sz by simp
  have mw': "mag 258 (s * s)" using mw by simp
  have mnx: "mag 64 (- x)" using assms(1) by simp
  obtain t1 where t1: "fsquare (fmul (fdiv (Inr y) (Inr w)) (Inr ex)) = Inr t1"
      "approx (2 * 8 + 10) t1 ((y / (s * s) * ex) * (y / (s * s) * ex))"
      "mag (2 * 258 + 256) ((y / (s * s) * ex) * (y / (s * s) * ex))"
    using unc_term [OF w(2) _ wz mw' _ _ assms(2) assms(4)] by force
  obtain t2 where t2: "fsquare (fmul (fdiv (Inr (- x)) (Inr w)) (Inr ey)) = Inr t2"
      "approx (2 * 8 + 10) t2 ((- x / (s * s) * ey) * (- x / (s * s) * ey))"
      "mag (2 * 258 + 256) ((- x / (s * s) * ey) * (- x / (s * s) * ey))"
    using unc_term [OF w(2) _ wz mw' _ _ mnx assms(5)] by force
  define b where
    "b = (y / (s * s) * ex) * (y / (s * s) * ex) + (- x / (s * s) * ey) * (- x / (s * s) * ey)"
  obtain r where r: "np_sqrt (fadd (Inr t1) (Inr t2)) = Inr r"
      "approx (2 * 8 + 10 + 2) r (sqrt b)" "mag (2 * 258 + 256 + 1) (sqrt b)"
    unfolding b_def using unc_root [OF t1(2) t2(2) _ _ _ t1(3) t2(3)] by auto
  obtain c where c: "fdiv (Inr 180) (round64 pi) = Inr c" "approx 3 c (180 / pi)"
    using rad2deg_const_approx by blast
  have "mag (2 * 258 + 256 + 1 + 7) (sqrt b * (180 / pi))"
    using r(3) mag_rad2deg by (rule mag_mult)
  then have md: "mag 780 (sqrt b * (180 / pi))" by simp
  then have "mag 1021 (sqrt b * (180 / pi))" by (rule mag_mono) simp
  with r(2) c(2) have "\<exists>g. fmul (Inr r) (Inr c) = Inr g \<and>
      approx (2 * 8 + 10 + 2 + 3 + 2) g (sqrt b * (180 / pi))"
    by (intro fmul_approx) simp_all
  then obtain g where g: "fmul (Inr r) (Inr c) = Inr g" "approx 33 g (sqrt b * (180 / pi))"
    by auto
  have "mag (780 + 64) (sqrt b * (180 / pi) * sigma)" using md assms(6) by (rule mag_mult)
  then have "mag 1021 (sqrt b * (180 / pi) * sigma)" by (rule mag_mono) simp
  with g(2) have "\<exists>u. fmul (Inr g) (Inr sigma) = Inr u \<and>
      approx (33 + 0 + 2) u (sqrt b * (180 / pi) * sigma)"
    by (intro fmul_approx) simp_all
  then obtain u where u: "fmul (Inr g) (Inr sigma) = Inr u"
      "approx 35 u (sqrt b * (180 / pi) * sigma)" by auto
  have "sqrt b * (180 / pi) * sigma = 180 / pi * spec_pa_unc x y ex ey sigma"
    by (simp add: spec_pa_unc_def b_def s_def power2_eq_square)
  with u(2) have "approx 35 u (180 / pi * spec_pa_unc x y ex ey sigma)" by (simp only:)
  then have "approx 40 u (180 / pi * spec_pa_unc x y ex ey sigma)"
    by (rule approx_mono) simp
  moreover have "pa_unc (convert_params x y f ex ey ef sigma) = Inr u"
    by (simp only: pa_unc_field v(1) w(1) t1(1) t2(1) r(1) np_rad2deg_def c(1) g(1) u(1))
  ultimately show ?thesis by blast
qed

section \<open>Inputs at which rounding decides the result\<close>

subsection \<open>Evaluating a rounding inside one binade\<close>

lemma round64_binade:
  assumes "pow2 k \<le> \<bar>r\<bar>" and "\<bar>r\<bar> < pow2 (k + 1)" and "- 1022 \<le> k" and "k \<le> 1022"
  shows "round64 r = Inr (of_int (rne (r / pow2 (k - 52))) * pow2 (k - 52))"
proof -
  have "0 < \<bar>r\<bar>" using assms(1) pow2_pos [of k] by linarith
  then have nz: "r \<noteq> 0" by simp
  have "\<lfloor>log 2 \<bar>r\<bar>\<rfloor> = k" using assms(1,2) by (rule floor_log2_eq)
  then have u: "ulp_exp r = k - 52" using assms(3) by (simp add: ulp_exp_def)
  have rv: "rval r = of_int (rne (r / pow2 (k - 52))) * pow2 (k - 52)"
    using nz by (simp add: rval_def u)
  have "\<exists>v. round64 r = Inr v \<and> \<bar>v - r\<bar> \<le> pow2 (k + 1) * pow2 (- 53)"
  proof (rule round64_err)
    show "\<bar>r\<bar> \<le> pow2 (k + 1)" using assms(2) by simp
    show "pow2 (- 1022) \<le> pow2 (k + 1)" using assms(3) by simp
    show "pow2 (k + 1) \<le> pow2 1023" using assms(4) by simp
  qed
  then obtain v where "round64 r = Inr v" by blast
  then show ?thesis by (simp add: round64_Inr_iff rv)
qed

lemma round64_near_int:
  assumes "pow2 k \<le> \<bar>r\<bar>" and "\<bar>r\<bar> < pow2 (k + 1)" and "- 1022 \<le> k" and "k \<le> 1022"
    and "\<bar>r / pow2 (k - 52) - of_int n\<bar> < 1 / 2"
  shows "round64 r = Inr (of_int n * pow2 (k - 52))"
  using round64_binade [OF assms(1-4)] rne_near [OF assms(5)] by simp

lemma is_double_dyadic:
  assumes "\<bar>m\<bar> < 2 ^ 53" and "- 1074 \<le> e" and "\<bar>of_int m * pow2 e\<bar> < 2 ^ 1024"
  shows "is_double (of_int m * pow2 e)"
  unfolding is_double_def using assms by (rule round64_exact)

lemma is_double_int: "\<bar>m\<bar> < 2 ^ 53 \<Longrightarrow> is_double (of_int m)"
  unfolding is_double_def by (rule round64_int)

lemma pow2_1: "pow2 1 = 2" and pow2_m1: "pow2 (- 1) = 1 / 2"
  by (simp_all add: pow2_def powr_minus field_simps)

lemma np_log10_pos: "0 < a \<Longrightarrow> np_log10 (Inr a) = round64 (log 10 a)"
  by simp

lemma round64_overflow:
  "round64 (pow2 1024) = Inl PosInf" "round64 (- pow2 1024) = Inl NegInf"
proof -
  have "rval (of_int 1 * pow2 1024) = of_int 1 * pow2 1024" by (rule rval_exact) simp_all
  then have r: "rval (pow2 1024) = pow2 1024" by simp
  have p: "2 ^ 1024 = pow2 1024" by (simp only: pow2_numeral)
  have a: "2 ^ 1024 \<le> \<bar>rval (pow2 1024)\<bar>" by (simp only: r p abs_le_self_iff pow2_nonneg)
  then show "round64 (pow2 1024) = Inl PosInf" by (simp add: round64_def)
  have "2 ^ 1024 \<le> \<bar>rval (- pow2 1024)\<bar>" using a by (simp only: rval_minus abs_minus_cancel)
  then show "round64 (- pow2 1024) = Inl NegInf" by (simp add: round64_def not_less)
qed

lemma pow2_1023_twice: "pow2 1023 + pow2 1023 = pow2 1024"
  using pow2_Suc [of 1023] by simp

subsection \<open>Absorption of a small uncertainty\<close>

lemma absorb_up: "round64 (1 + pow2 (- 60)) = Inr 1"
proof -
  have p: "pow2 (- 60) = 1 / 2 ^ 60" by (simp add: pow2_neg_numeral)
  have "round64 (1 + pow2 (- 60)) = Inr (of_int (2 ^ 52) * pow2 (0 - 52))"
  proof (rule round64_near_int)
    show "pow2 0 \<le> \<bar>1 + pow2 (- 60)\<bar>" by (simp add: p)
    show "\<bar>1 + pow2 (- 60)\<bar> < pow2 (0 + 1)" by (simp add: p pow2_1)
    show "\<bar>(1 + pow2 (- 60)) / pow2 (0 - 52) - of_int (2 ^ 52)\<bar> < 1 / 2"
      by (simp add: p pow2_neg_numeral)
  qed simp_all
  then show ?thesis by (simp add: pow2_neg_numeral)
qed

lemma absorb_down: "round64 (1 - pow2 (- 60)) = Inr 1"
proof -
  have p: "pow2 (- 60) = 1 / 2 ^ 60" by (simp add: pow2_neg_numeral)
  have "round64 (1 - pow2 (- 60)) = Inr (of_int (2 ^ 53) * pow2 (- 1 - 52))"
  proof (rule round64_near_int)
    show "pow2 (- 1) \<le> \<bar>1 - pow2 (- 60)\<bar>" by (simp add: p pow2_m1)
    show "\<bar>1 - pow2 (- 60)\<bar> < pow2 (- 1 + 1)" by (simp add: p)
    show "\<bar>(1 - pow2 (- 60)) / pow2 (- 1 - 52) - of_int (2 ^ 53)\<bar> < 1 / 2"
      by (simp add: p pow2_neg_numeral)
  qed simp_all
  then show ?thesis by (simp add: pow2_neg_numeral)
qed

lemma absorb_product: "fmul (Inr (pow2 (- 60))) (Inr 1) = Inr (pow2 (- 60))"
  by (simp add: round64_pow2)

subsection \<open>A rounding tie that cancels the lower bound\<close>

lemma tie_product:
  "fmul (Inr (3602879701896397 / 2 ^ 55)) (Inr 3) = Inr (5404319552844596 / 2 ^ 54)"
proof -
  define r :: real where "r = 3602879701896397 / 2 ^ 55 * 3"
  have "round64 r = Inr (of_int (rne (r / pow2 (- 2 - 52))) * pow2 (- 2 - 52))"
  proof (rule round64_binade)
    show "pow2 (- 2) \<le> \<bar>r\<bar>" by (simp add: r_def pow2_neg_numeral)
    show "\<bar>r\<bar> < pow2 (- 2 + 1)" by (simp add: r_def pow2_m1)
  qed simp_all
  moreover have "r / pow2 (- 2 - 52) = 10808639105689191 / 2"
    by (simp add: r_def pow2_neg_numeral)
  moreover have "rne (10808639105689191 / 2) = 5404319552844596"
    by (simp add: rne_def Let_def)
  ultimately have "round64 r = Inr (of_int 5404319552844596 * pow2 (- 2 - 52))"
    by (simp only:)
  then have "round64 r = Inr (5404319552844596 / 2 ^ 54)"
    by (simp add: pow2_neg_numeral)
  then show ?thesis by (simp add: r_def)
qed

subsection \<open>Two neighbouring flux ratios with one logarithm\<close>

lemma ln10_ge_1: "1 \<le> ln (10::real)"
proof -
  have "exp 1 \<le> (10::real)" using exp_le by linarith
  then show ?thesis by (simp add: ln_ge_iff)
qed

lemma log10_1e20: "log 10 (10 ^ 20) = 20"
  using log_nat_power [of 10 10 20] by simp

lemma log10_neighbour:
  "20 \<le> log 10 (10 ^ 20 + 16384)" "log 10 (10 ^ 20 + 16384) \<le> 20 + 16384 / 10 ^ 20"
proof -
  have "log 10 (10 ^ 20) \<le> log 10 (10 ^ 20 + 16384)"
    by (subst log_le_cancel_iff) simp_all
  then show "20 \<le> log 10 (10 ^ 20 + 16384)" by (simp only: log10_1e20)
  define u :: real where "u = 16384 / 10 ^ 20"
  have u0: "0 \<le> u" by (simp add: u_def)
  have e: "(10::real) ^ 20 + 16384 = 10 ^ 20 * (1 + u)" by (simp add: u_def field_simps)
  have "log 10 (10 ^ 20 * (1 + u)) = log 10 (10 ^ 20) + log 10 (1 + u)"
    using u0 by (subst log_mult) simp_all
  then have "log 10 (10 ^ 20 + 16384) = log 10 (10 ^ 20) + log 10 (1 + u)"
    by (simp only: e)
  moreover have "log 10 (1 + u) \<le> u"
  proof -
    have "ln (1 + u) \<le> u" using u0 by (rule ln_add_one_self_le_self)
    moreover have "0 \<le> ln (1 + u)" using u0 by simp
    ultimately have "ln (1 + u) / ln 10 \<le> u / 1"
      using ln10_ge_1 by (intro frac_le) simp_all
    then show ?thesis by (simp add: log_def)
  qed
  ultimately have "log 10 (10 ^ 20 + 16384) \<le> 20 + u"
    by (simp only: log10_1e20)
  then show "log 10 (10 ^ 20 + 16384) \<le> 20 + 16384 / 10 ^ 20"
    by (simp only: u_def)
qed

lemma log10_collision: "round64 (log 10 (10 ^ 20 + 16384)) = Inr 20"
proof -
  define l :: real where "l = log 10 (10 ^ 20 + 16384)"
  have lo: "20 \<le> l" and hi: "l \<le> 20 + 16384 / 10 ^ 20"
    using log10_neighbour by (simp_all add: l_def)
  have "round64 l = Inr (of_int (20 * 2 ^ 48) * pow2 (4 - 52))"
  proof (rule round64_near_int)
    show "pow2 4 \<le> \<bar>l\<bar>" using lo by (simp add: pow2_numeral)
    show "\<bar>l\<bar> < pow2 (4 + 1)" using lo hi by (simp add: pow2_numeral)
    have "l / pow2 (4 - 52) - of_int (20 * 2 ^ 48) = (l - 20) * 2 ^ 48"
      by (simp add: pow2_neg_numeral algebra_simps)
    moreover have "0 \<le> (l - 20) * 2 ^ 48" using lo by simp
    moreover have "(l - 20) * 2 ^ 48 \<le> 16384 / 10 ^ 20 * 2 ^ 48"
      using hi by (intro mult_right_mono) simp_all
    moreover have "(16384 :: real) / 10 ^ 20 * 2 ^ 48 < 1 / 2" by simp
    ultimately show "\<bar>l / pow2 (4 - 52) - of_int (20 * 2 ^ 48)\<bar> < 1 / 2" by linarith
  qed simp_all
  then show ?thesis by (simp add: l_def pow2_neg_numeral)
qed

lemma fmul_log_20: "fmul (Inr (- 2.5)) (Inr 20) = Inr (- 50)"
proof -
  have "round64 (- 50) = Inr (- 50)" by (rule round64_neg_numeral) simp
  then show ?thesis by simp
qed

lemma mag_diff_1e20: "mag_diff (Inr (10 ^ 20)) = Inr (- 50)"
proof -
  have "round64 20 = Inr 20" by (rule round64_numeral) simp
  moreover have "np_log10 (Inr (10 ^ 20)) = round64 (log 10 (10 ^ 20))"
    by (rule np_log10_pos) simp
  ultimately have "np_log10 (Inr (10 ^ 20)) = Inr 20" by (simp only: log10_1e20)
  then show ?thesis by (simp only: mag_diff_def fmul_log_20)
qed

lemma mag_diff_1e20_next: "mag_diff (Inr (10 ^ 20 + 16384)) = Inr (- 50)"
proof -
  have "np_log10 (Inr (10 ^ 20 + 16384)) = round64 (log 10 (10 ^ 20 + 16384))"
    by (rule np_log10_pos) simp
  then have "np_log10 (Inr (10 ^ 20 + 16384)) = Inr 20" by (simp only: log10_collision)
  then show ?thesis by (simp only: mag_diff_def fmul_log_20)
qed

lemma is_double_1e20: "is_double (10 ^ 20)" "is_double (10 ^ 20 + 16384)"
proof -
  have "is_double (of_int 95367431640625 * pow2 20)"
    by (rule is_double_dyadic) (simp_all add: pow2_numeral)
  then show "is_double (10 ^ 20)" by (simp add: pow2_numeral)
  have "is_double (of_int 6103515625000001 * pow2 14)"
    by (rule is_double_dyadic) (simp_all add: pow2_numeral)
  then show "is_double (10 ^ 20 + 16384)" by (simp add: pow2_numeral)
qed

lemma is_double_tie:
  "is_double (5404319552844596 / 2 ^ 54)" "is_double (3602879701896397 / 2 ^ 55)"
proof -
  have "is_double (of_int 5404319552844596 * pow2 (- 54))"
    by (rule is_double_dyadic) (simp_all add: pow2_neg_numeral)
  then show "is_double (5404319552844596 / 2 ^ 54)" by (simp add: pow2_neg_numeral)
  have "is_double (of_int 3602879701896397 * pow2 (- 55))"
    by (rule is_double_dyadic) (simp_all add: pow2_neg_numeral)
  then show "is_double (3602879701896397 / 2 ^ 55)" by (simp add: pow2_neg_numeral)
qed

section \<open>The magnitude bounds\<close>

subsection \<open>Results of a rounding are zero or in the range of the doubles\<close>

lemma round64_pos_range:
  assumes "round64 r = Inr v" and "0 < v"
  shows "pow2 (- 1074) \<le> v" and "v \<le> pow2 1024"
proof -
  from round64_range [OF assms(1)] assms(2) show "pow2 (- 1074) \<le> v" by auto
  from assms(1) have "\<bar>v\<bar> < 2 ^ 1024" by (simp add: round64_Inr_iff)
  then show "v \<le> pow2 1024" by (simp add: pow2_numeral)
qed

lemma isl_mag_diff_round:
  assumes "round64 r = Inr d"
  shows "isl (mag_diff (Inr d)) \<longleftrightarrow> d \<le> 0"
proof (rule isl_mag_diff)
  show "d \<le> 0 \<or> pow2 (- 1074) \<le> d \<and> d \<le> pow2 1024"
    using round64_pos_range [OF assms] by (cases "d \<le> 0") simp_all
qed

lemma isl_mag_diff_double: "is_double a \<Longrightarrow> isl (mag_diff (Inr a)) \<longleftrightarrow> a \<le> 0"
  unfolding is_double_def by (rule isl_mag_diff_round)

lemma fadd_Inr_result: "fadd (Inr a) q = Inr d \<Longrightarrow> \<exists>r. round64 r = Inr d"
proof (cases q)
  case (Inl s)
  assume "fadd (Inr a) q = Inr d"
  with Inl show ?thesis by (cases s) simp_all
next
  case (Inr b)
  assume "fadd (Inr a) q = Inr d"
  with Inr show ?thesis by auto
qed

lemma fsub_Inr_result: "fsub (Inr a) q = Inr d \<Longrightarrow> \<exists>r. round64 r = Inr d"
  unfolding fsub_def by (rule fadd_Inr_result)

lemma fadd_Inl_result: "isl (fadd (Inr a) q) \<Longrightarrow> isl (mag_diff (fadd (Inr a) q))"
  by (cases "fadd (Inr a) q") simp_all

subsection \<open>Perturbation of the logarithm\<close>

lemma ln_perturb:
  fixes t :: real
  assumes "\<bar>t\<bar> \<le> 1 / 2"
  shows "\<bar>ln (1 + t)\<bar> \<le> 2 * \<bar>t\<bar>"
proof -
  have pos: "0 < 1 + t" using assms by linarith
  have up: "ln (1 + t) \<le> t" using ln_le_minus_one [OF pos] by simp
  have "ln (inverse (1 + t)) \<le> inverse (1 + t) - 1"
    using pos by (intro ln_le_minus_one) simp
  then have "- ln (1 + t) \<le> inverse (1 + t) - 1" using pos by (simp add: ln_inverse)
  also have "inverse (1 + t) - 1 = - t / (1 + t)" using pos by (simp add: field_simps)
  also have "\<dots> \<le> 2 * \<bar>t\<bar>"
  proof -
    have "- t \<le> 2 * \<bar>t\<bar> * (1 + t)"
    proof (cases "0 \<le> t")
      case True
      then have "0 \<le> 2 * t * (1 + t)" by simp
      moreover have "\<bar>t\<bar> = t" using True by simp
      ultimately show ?thesis using True by (simp only:)
    next
      case False
      then have "t < 0" by simp
      moreover have "1 / 2 \<le> 1 + t" using assms by linarith
      ultimately have "(- t) * 1 \<le> (- t) * (2 * (1 + t))"
        by (intro mult_left_mono) simp_all
      with \<open>t < 0\<close> show ?thesis by (simp add: algebra_simps)
    qed
    then have "(- t) / (1 + t) \<le> 2 * \<bar>t\<bar>"
      using pos by (simp only: pos_divide_le_eq)
    then show ?thesis by simp
  qed
  finally have low: "- ln (1 + t) \<le> 2 * \<bar>t\<bar>" .
  from up low show ?thesis by linarith
qed

lemma log10_perturb:
  assumes b: "0 < b" and ab: "\<bar>a - b\<bar> \<le> d * b" and d: "d \<le> 1 / 2"
  shows "\<bar>log 10 a - log 10 b\<bar> \<le> 2 * d"
proof -
  define t where "t = (a - b) / b"
  have a: "a = b * (1 + t)" using b by (simp add: t_def field_simps)
  have "\<bar>t\<bar> = \<bar>a - b\<bar> / b" using b by (simp add: t_def)
  also have "\<dots> \<le> d" using ab b by (simp add: pos_divide_le_eq)
  finally have t: "\<bar>t\<bar> \<le> d" .
  have t2: "\<bar>t\<bar> \<le> 1 / 2" using t d by linarith
  have pos: "0 < 1 + t" using t2 by linarith
  have "log 10 a = log 10 b + log 10 (1 + t)"
    unfolding a using b pos by (simp add: log_mult)
  then have "\<bar>log 10 a - log 10 b\<bar> = \<bar>ln (1 + t)\<bar> / ln 10" by (simp add: log_def)
  also have "\<dots> \<le> \<bar>ln (1 + t)\<bar> / 1"
    using ln10_ge_1 by (intro divide_left_mono) simp_all
  also have "\<dots> \<le> 2 * \<bar>t\<bar>" using ln_perturb [OF t2] by simp
  also have "\<dots> \<le> 2 * d" using t by simp
  finally show ?thesis .
qed

lemma spec_mag_diff_perturb:
  assumes "0 < b" and "\<bar>a - b\<bar> \<le> d * b" and "d \<le> 1 / 2"
  shows "\<bar>spec_mag_diff a - spec_mag_diff b\<bar> \<le> 5 * d"
proof -
  have "spec_mag_diff a - spec_mag_diff b = - 2.5 * (log 10 a - log 10 b)"
    by (simp add: spec_mag_diff_def algebra_simps)
  also have "\<bar>\<dots>\<bar> = 2.5 * \<bar>log 10 a - log 10 b\<bar>"
    by (simp only: abs_mult)
  finally have "\<bar>spec_mag_diff a - spec_mag_diff b\<bar> = 2.5 * \<bar>log 10 a - log 10 b\<bar>" .
  with log10_perturb [OF assms] show ?thesis by simp
qed

subsection \<open>The exact magnitude bounds\<close>

lemma spec_mag_diff_strict:
  assumes "0 < a" and "a < b"
  shows "spec_mag_diff b < spec_mag_diff a"
  using assms by (simp add: spec_mag_diff_def)

lemma spec_bracket_asym:
  assumes "0 < d" and "d < f"
  shows "spec_mag_diff f - spec_mag_diff (f + d) < spec_mag_diff (f - d) - spec_mag_diff f"
proof -
  have f: "0 < f" using assms by linarith
  have "(f + d) * (f - d) < f * f"
  proof -
    have "(f + d) * (f - d) = f * f - d * d" by (simp add: algebra_simps)
    moreover have "0 < d * d" using assms(1) by simp
    ultimately show ?thesis by linarith
  qed
  moreover have "0 < (f + d) * (f - d)" using assms by simp
  ultimately have "log 10 ((f + d) * (f - d)) < log 10 (f * f)" by simp
  moreover have "log 10 ((f + d) * (f - d)) = log 10 (f + d) + log 10 (f - d)"
    using assms by (subst log_mult) simp_all
  moreover have "log 10 (f * f) = log 10 f + log 10 f"
    using f by (subst log_mult) simp_all
  ultimately have "log 10 (f + d) + log 10 (f - d) < log 10 f + log 10 f" by linarith
  then show ?thesis by (simp add: spec_mag_diff_def)
qed

subsection \<open>The arguments of the two magnitude bounds\<close>

lemma unc_product:
  assumes "is_double f" and "pow2 (- 1022) \<le> f" and "f \<le> pow2 1022"
    and "0 < ef" and "0 < sigma" and "sigma * ef < f"
  shows "\<exists>p. fmul (Inr ef) (Inr sigma) = Inr p \<and> 0 \<le> p \<and> p \<le> f \<and>
             \<bar>p - sigma * ef\<bar> \<le> f * pow2 (- 53)"
proof -
  have r0: "0 \<le> ef * sigma" using assms(4,5) by simp
  have rf: "ef * sigma \<le> f" using assms(6) by (simp add: mult.commute)
  have "\<exists>p. round64 (ef * sigma) = Inr p \<and> \<bar>p - ef * sigma\<bar> \<le> f * pow2 (- 53)"
  proof (rule round64_err)
    show "\<bar>ef * sigma\<bar> \<le> f" using r0 rf by simp
    show "pow2 (- 1022) \<le> f" by fact
    have "pow2 1022 \<le> pow2 1023" by simp
    with assms(3) show "f \<le> pow2 1023" by linarith
  qed
  then obtain p where p: "round64 (ef * sigma) = Inr p" "\<bar>p - ef * sigma\<bar> \<le> f * pow2 (- 53)"
    by blast
  have "0 \<le> p" using p(1) r0 by (rule round64_nonneg)
  moreover have "p \<le> f"
    using rf p(1) assms(1) unfolding is_double_def by (rule round64_mono)
  moreover have "fmul (Inr ef) (Inr sigma) = Inr p" using p(1) by simp
  moreover have "\<bar>p - sigma * ef\<bar> \<le> f * pow2 (- 53)" using p(2) by (simp add: mult.commute)
  ultimately show ?thesis by blast
qed

lemma upper_argument:
  assumes "is_double f" and "pow2 (- 1022) \<le> f" and "f \<le> pow2 1022"
    and "0 \<le> p" and "p \<le> f"
  shows "\<exists>a. fadd (Inr f) (Inr p) = Inr a \<and> f \<le> a \<and> \<bar>a - (f + p)\<bar> \<le> 2 * f * pow2 (- 53)"
proof -
  have f0: "0 < f" using assms(2) pow2_pos [of "- 1022"] by linarith
  have "\<exists>a. round64 (f + p) = Inr a \<and> \<bar>a - (f + p)\<bar> \<le> 2 * f * pow2 (- 53)"
  proof (rule round64_err)
    show "\<bar>f + p\<bar> \<le> 2 * f" using assms(4,5) f0 by simp
    show "pow2 (- 1022) \<le> 2 * f" using assms(2) f0 by linarith
    have "2 * pow2 1022 = pow2 1023" using pow2_Suc [of 1022] by simp
    with assms(3) show "2 * f \<le> pow2 1023" by linarith
  qed
  then obtain a where a: "round64 (f + p) = Inr a" "\<bar>a - (f + p)\<bar> \<le> 2 * f * pow2 (- 53)"
    by blast
  have "f \<le> f + p" using assms(4) by simp
  then have "f \<le> a" using assms(1) a(1) unfolding is_double_def by (rule round64_mono)
  with a show ?thesis by simp
qed

lemma lower_argument:
  assumes "is_double f" and "pow2 (- 1022) \<le> f" and "f \<le> pow2 1022"
    and "0 \<le> p" and "p \<le> f"
  shows "\<exists>a. fsub (Inr f) (Inr p) = Inr a \<and> 0 \<le> a \<and> a \<le> f \<and> \<bar>a - (f - p)\<bar> \<le> f * pow2 (- 53)"
proof -
  have "\<exists>a. round64 (f - p) = Inr a \<and> \<bar>a - (f - p)\<bar> \<le> f * pow2 (- 53)"
  proof (rule round64_err)
    show "\<bar>f - p\<bar> \<le> f" using assms(4,5) by simp
    show "pow2 (- 1022) \<le> f" by fact
    have "pow2 1022 \<le> pow2 1023" by simp
    with assms(3) show "f \<le> pow2 1023" by linarith
  qed
  then obtain a where a: "round64 (f - p) = Inr a" "\<bar>a - (f - p)\<bar> \<le> f * pow2 (- 53)"
    by blast
  have "0 \<le> f - p" using assms(5) by simp
  with a(1) have "0 \<le> a" by (rule round64_nonneg)
  moreover have "f - p \<le> f" using assms(4) by simp
  then have "a \<le> f" using a(1) assms(1) unfolding is_double_def by (rule round64_mono)
  ultimately show ?thesis using a by (simp add: fsub_Inr)
qed

subsection \<open>Order of the computed magnitude bounds\<close>

lemma dm_finite:
  assumes "pow2 (- 1022) \<le> f" and "f \<le> pow2 1022"
  shows "\<exists>m. dm (convert_params x y f ex ey ef sigma) = Inr m \<and>
             \<bar>m - spec_mag_diff f\<bar> \<le> pow2 (- 40)"
proof -
  have "pow2 (- 1074) \<le> pow2 (- 1022)" "pow2 1022 \<le> pow2 1024" by simp_all
  with assms have "pow2 (- 1074) \<le> f" "f \<le> pow2 1024" by linarith+
  then show ?thesis unfolding dm_field by (rule mag_diff_finite)
qed

subsection \<open>Accuracy of the computed magnitude bounds\<close>

lemma close_sum: "pow2 (- 40) + 5 * (4 * pow2 (- 53)) \<le> pow2 (- 39)"
  by (simp add: pow2_neg_numeral)

lemma dm_upper_close:
  assumes "is_double f" and "pow2 (- 1022) \<le> f" and "f \<le> pow2 1022"
    and "0 < ef" and "0 < sigma" and "sigma * ef < f"
  shows "\<exists>u. dm_upper (convert_params x y f ex ey ef sigma) = Inr u \<and>
             \<bar>u - spec_mag_diff (f + sigma * ef)\<bar> \<le> pow2 (- 39)"
proof -
  define e where "e = f + sigma * ef"
  define d where "d = pow2 (- 53)"
  have d0: "0 \<le> d" by (simp add: d_def)
  have f0: "0 < f" using assms(2) pow2_pos [of "- 1022"] by linarith
  have se: "0 < sigma * ef" using assms(4,5) by simp
  have fe: "f \<le> e" using se by (simp add: e_def)
  have e0: "0 < e" using f0 fe by linarith
  obtain p where p: "fmul (Inr ef) (Inr sigma) = Inr p" "0 \<le> p" "p \<le> f"
      "\<bar>p - sigma * ef\<bar> \<le> f * d"
    using unc_product [OF assms] unfolding d_def by blast
  obtain a where a: "fadd (Inr f) (Inr p) = Inr a" "f \<le> a" "\<bar>a - (f + p)\<bar> \<le> 2 * f * d"
    using upper_argument [OF assms(1-3) p(2,3)] unfolding d_def by blast
  have "\<bar>a - e\<bar> \<le> \<bar>a - (f + p)\<bar> + \<bar>p - sigma * ef\<bar>" unfolding e_def by linarith
  also have "\<dots> \<le> 3 * d * f" using a(3) p(4) by (simp add: algebra_simps)
  also have "\<dots> \<le> 4 * d * e"
  proof -
    have "3 * d * f \<le> 4 * d * f" using d0 f0 by (simp add: mult_right_mono)
    also have "\<dots> \<le> 4 * d * e" using d0 fe by (intro mult_left_mono) simp_all
    finally show ?thesis .
  qed
  finally have ae: "\<bar>a - e\<bar> \<le> 4 * d * e" .
  have "4 * d \<le> 1 / 2" by (simp add: d_def pow2_neg_numeral)
  with e0 ae have pert: "\<bar>spec_mag_diff a - spec_mag_diff e\<bar> \<le> 5 * (4 * d)"
    by (rule spec_mag_diff_perturb)
  have a0: "0 < a" using a(2) f0 by linarith
  have "round64 (f + p) = Inr a" using a(1) by simp
  from round64_pos_range [OF this a0] obtain u where
    u: "mag_diff (Inr a) = Inr u" "\<bar>u - spec_mag_diff a\<bar> \<le> pow2 (- 40)"
    using mag_diff_finite by blast
  have "\<bar>u - spec_mag_diff e\<bar> \<le> pow2 (- 40) + 5 * (4 * d)" using u(2) pert by linarith
  with close_sum have "\<bar>u - spec_mag_diff e\<bar> \<le> pow2 (- 39)" unfolding d_def by linarith
  moreover have "dm_upper (convert_params x y f ex ey ef sigma) = Inr u"
    by (simp only: dm_upper_field p(1) a(1) u(1))
  ultimately show ?thesis unfolding e_def by blast
qed

lemma dm_lower_close:
  assumes "is_double f" and "pow2 (- 1022) \<le> f" and "f \<le> pow2 1022"
    and "0 < ef" and "0 < sigma" and "2 * (sigma * ef) \<le> f"
  shows "\<exists>l. dm_lower (convert_params x y f ex ey ef sigma) = Inr l \<and>
             \<bar>l - spec_mag_diff (f - sigma * ef)\<bar> \<le> pow2 (- 39)"
proof -
  define e where "e = f - sigma * ef"
  define d where "d = pow2 (- 53)"
  have d0: "0 \<le> d" by (simp add: d_def)
  have f0: "0 < f" using assms(2) pow2_pos [of "- 1022"] by linarith
  have se: "0 < sigma * ef" using assms(4,5) by simp
  have lt: "sigma * ef < f" using assms(6) se by linarith
  have fe: "f \<le> 2 * e" using assms(6) by (simp add: e_def)
  have e0: "0 < e" using f0 fe by linarith
  obtain p where p: "fmul (Inr ef) (Inr sigma) = Inr p" "0 \<le> p" "p \<le> f"
      "\<bar>p - sigma * ef\<bar> \<le> f * d"
    using unc_product [OF assms(1-5) lt] unfolding d_def by blast
  obtain a where a: "fsub (Inr f) (Inr p) = Inr a" "0 \<le> a" "a \<le> f" "\<bar>a - (f - p)\<bar> \<le> f * d"
    using lower_argument [OF assms(1-3) p(2,3)] unfolding d_def by blast
  have "\<bar>a - e\<bar> \<le> \<bar>a - (f - p)\<bar> + \<bar>p - sigma * ef\<bar>" unfolding e_def by linarith
  also have "\<dots> \<le> 2 * d * f" using a(4) p(4) by (simp add: algebra_simps)
  also have "\<dots> \<le> 2 * d * (2 * e)" using d0 fe by (intro mult_left_mono) simp_all
  finally have ae: "\<bar>a - e\<bar> \<le> 4 * d * e" by simp
  have d4: "4 * d \<le> 1 / 2" by (simp add: d_def pow2_neg_numeral)
  with e0 ae have pert: "\<bar>spec_mag_diff a - spec_mag_diff e\<bar> \<le> 5 * (4 * d)"
    by (rule spec_mag_diff_perturb)
  have "4 * d * e \<le> 1 / 2 * e" using d4 e0 by (intro mult_right_mono) simp_all
  with ae e0 have a0: "0 < a" by linarith
  have "round64 (f - p) = Inr a" using a(1) by (simp add: fsub_Inr)
  from round64_pos_range [OF this a0] obtain l where
    l: "mag_diff (Inr a) = Inr l" "\<bar>l - spec_mag_diff a\<bar> \<le> pow2 (- 40)"
    using mag_diff_finite by blast
  have "\<bar>l - spec_mag_diff e\<bar> \<le> pow2 (- 40) + 5 * (4 * d)" using l(2) pert by linarith
  with close_sum have "\<bar>l - spec_mag_diff e\<bar> \<le> pow2 (- 39)" unfolding d_def by linarith
  moreover have "dm_lower (convert_params x y f ex ey ef sigma) = Inr l"
    by (simp only: dm_lower_field p(1) a(1) l(1))
  ultimately show ?thesis unfolding e_def by blast
qed

lemma half_le_arctan:
  assumes "0 \<le> x" and "x \<le> 1"
  shows "x / 2 \<le> arctan x"
proof -
  have "(\<lambda>u. arctan u * 2 - u) 0 \<le> (\<lambda>u. arctan u * 2 - u) x"
  proof (rule DERIV_nonneg_imp_nondecreasing [OF assms(1)])
    fix u :: real
    assume u: "0 \<le> u" "u \<le> x"
    have d: "DERIV (\<lambda>u. arctan u * 2 - u) u :> inverse (1 + u\<^sup>2) * 2 - 1"
      by (auto intro!: derivative_eq_intros simp: field_simps)
    have "u\<^sup>2 \<le> 1" using u assms(2) by (simp add: power_le_one)
    moreover have "0 < 1 + u\<^sup>2" by (simp add: add_pos_nonneg)
    ultimately have "1 / 2 \<le> 1 / (1 + u\<^sup>2)"
      by (intro divide_left_mono) simp_all
    then have "1 / 2 \<le> inverse (1 + u\<^sup>2)"
      by (simp only: inverse_eq_divide)
    with d show "\<exists>d. DERIV (\<lambda>u. arctan u * 2 - u) u :> d \<and> 0 \<le> d"
      by (intro exI[of _ "inverse (1 + u\<^sup>2) * 2 - 1"]) simp
  qed
  then show ?thesis by simp
qed

lemma sqrt2_lower: "14142 / 10000 < sqrt 2"
  by (rule real_less_rsqrt) (simp add: power2_eq_square)

lemma arctan_scenario_gap: "arctan (2587 / 1073) < 3 * pi / 8 - 1 / 5000"
proof -
  define th where "th = arctan (2587 / 1073)"
  define dl where "dl = 3 * pi / 8 - th"
  have th_pos: "0 < th" unfolding th_def by simp
  have th_up: "th < 3 * pi / 8" unfolding th_def by (rule arctan_scenario_upper)
  have dl_pos: "0 < dl" and dl_up: "dl < pi / 2"
    using th_pos th_up unfolding dl_def by simp_all
  have tan_th: "tan th = 2587 / 1073" unfolding th_def by (rule tan_arctan)
  have c1: "cos (3 * pi / 8) \<noteq> 0"
    using cos_gt_zero_pi [of "3 * pi / 8"] by simp
  have c2: "cos th \<noteq> 0"
    unfolding th_def by (rule cos_arctan_not_zero)
  have c3: "cos (3 * pi / 8 - th) \<noteq> 0"
    using cos_gt_zero_pi [of dl] dl_pos dl_up unfolding dl_def by simp
  have "tan dl = (tan (3 * pi / 8) - tan th) / (1 + tan (3 * pi / 8) * tan th)"
    unfolding dl_def using c1 c2 c3 by (rule tan_diff)
  also have "\<dots> = (1 + sqrt 2 - 2587 / 1073) / (1 + (1 + sqrt 2) * (2587 / 1073))"
    by (simp only: tan_three_eighths_pi tan_th)
  finally have t: "tan dl = (1 + sqrt 2 - 2587 / 1073) / (1 + (1 + sqrt 2) * (2587 / 1073))" .
  have "1 / 2500 < (1 + sqrt 2 - 2587 / 1073) / (1 + (1 + sqrt 2) * (2587 / 1073))"
    using sqrt2_lower sqrt2_bounds(2) by (simp add: field_simps)
  then have "1 / 2500 < tan dl" by (simp only: t)
  then have "arctan (1 / 2500) < arctan (tan dl)" by (simp only: arctan_less_iff)
  moreover have "arctan (tan dl) = dl" using dl_pos dl_up by (intro arctan_tan) simp_all
  moreover have "(1 / 2500) / 2 \<le> arctan (1 / 2500)" by (rule half_le_arctan) simp_all
  ultimately have "1 / 5000 < dl" by simp
  then show ?thesis unfolding dl_def th_def by simp
qed

lemma arctan_scenario_degrees_gap: "180 / pi * arctan (2587 / 1073) < 67.491"
proof -
  have "arctan (2587 / 1073) * (180 / pi) < (3 * pi / 8 - 1 / 5000) * (180 / pi)"
    using arctan_scenario_gap by (intro mult_strict_right_mono) simp_all
  moreover have "(3 * pi / 8 - 1 / 5000) * (180 / pi) = 67.5 - (1 / 5000) * (180 / pi)"
    by (simp add: field_simps)
  moreover have "9 / 1000 \<le> (1 / 5000) * (180 / pi)"
    using pi_less_4 by (simp add: field_simps)
  ultimately show ?thesis by (simp add: mult.commute)
qed

lemma pa_scenario_east_gap: "spec_pa 258.7 107.3 < 427.491"
proof -
  have "arctan2 258.7 107.3 = arctan (2587 / 1073)"
    by (simp add: arctan2_def)
  then show ?thesis using arctan_scenario_degrees_gap by (simp add: spec_pa_def)
qed

lemma pa_scenario_west_gap: "292.509 < spec_pa (- 258.7) 107.3"
proof -
  have "arctan2 (- 258.7) 107.3 = - arctan (2587 / 1073)"
    by (simp add: arctan2_def arctan_minus)
  then show ?thesis using arctan_scenario_degrees_gap by (simp add: spec_pa_def)
qed

lemma dm_scenario_gap: "spec_mag_diff 0.024 < 4.0496"
proof -
  have "- (real 196 / real 121) < log 10 (0.024::real)"
    by (rule log10_gt_rat) (simp_all add: power_divide)
  then show ?thesis by (simp add: spec_mag_diff_def)
qed

lemma approx_bound:
  assumes "approx n a b" and "real n * pow2 (- 52) \<le> c"
  shows "\<bar>a - b\<bar> \<le> c * \<bar>b\<bar>"
proof -
  have "real n * pow2 (- 52) * \<bar>b\<bar> \<le> c * \<bar>b\<bar>"
    using assms(2) by (intro mult_right_mono) simp_all
  with assms(1) show ?thesis unfolding approx_def by linarith
qed

subsection \<open>Order of the magnitude bounds for every positive double\<close>

lemma is_double_pos_range:
  assumes "is_double a" and "0 < a"
  shows "pow2 (- 1074) \<le> a" and "a \<le> pow2 1024"
  using assms round64_pos_range [of a a] by (simp_all add: is_double_def)

lemma round64_between:
  assumes "0 \<le> r" and "r \<le> b" and "is_double b"
  shows "\<exists>v. round64 r = Inr v \<and> 0 \<le> v \<and> v \<le> b"
proof -
  from assms(3) have b: "\<bar>rval b\<bar> < 2 ^ 1024" "b = rval b"
    unfolding is_double_def round64_Inr_iff by blast+
  have lo: "0 \<le> rval r" using assms(1) by (rule rval_nonneg)
  have hi: "rval r \<le> b" using rval_mono [OF assms(2)] b(2) by simp
  have "\<bar>rval r\<bar> < 2 ^ 1024" using lo hi b by linarith
  then have "round64 r = Inr (rval r)" by (simp add: round64_Inr_iff)
  with lo hi show ?thesis by blast
qed

lemma round64_above:
  assumes "is_double b" and "0 < b" and "b \<le> r"
  shows "round64 r = Inl PosInf \<or> (\<exists>v. round64 r = Inr v \<and> b \<le> v)"
proof (cases "2 ^ 1024 \<le> \<bar>rval r\<bar>")
  case True
  moreover have "0 < r" using assms(2,3) by linarith
  ultimately show ?thesis by (simp add: round64_def)
next
  case False
  then have "round64 r = Inr (rval r)" by (simp add: round64_def)
  moreover have "b = rval b"
    using assms(1) unfolding is_double_def round64_Inr_iff by blast
  then have "b \<le> rval r"
    using rval_mono [OF assms(3)] by linarith
  ultimately show ?thesis by blast
qed

lemma mag_diff_double:
  assumes "is_double f" and "0 < f"
  shows "\<exists>m. mag_diff (Inr f) = Inr m \<and> \<bar>m - spec_mag_diff f\<bar> \<le> pow2 (- 40)"
  using is_double_pos_range [OF assms] by (rule mag_diff_finite)

lemma mag_diff_PosInf: "mag_diff (Inl PosInf) = Inl NegInf"
  by (simp add: mag_diff_def)

lemma mag_diff_zero: "mag_diff (Inr 0) = Inl PosInf"
  by (simp add: mag_diff_def)

lemma bounds_order_double:
  assumes "is_double f" and "0 < f" and "0 < ef" and "0 < sigma" and "sigma * ef < f"
  shows "fle (dm_upper (convert_params x y f ex ey ef sigma)) (dm (convert_params x y f ex ey ef sigma)) \<and>
         fle (dm (convert_params x y f ex ey ef sigma)) (dm_lower (convert_params x y f ex ey ef sigma))"
proof -
  obtain m where mf: "mag_diff (Inr f) = Inr m"
    using mag_diff_double [OF assms(1,2)] by blast
  have "0 \<le> ef * sigma" using assms(3,4) by simp
  moreover have "ef * sigma \<le> f" using assms(5) by (simp add: mult.commute)
  ultimately obtain p where p: "round64 (ef * sigma) = Inr p" "0 \<le> p" "p \<le> f"
    using round64_between [OF _ _ assms(1)] by blast
  have pm: "fmul (Inr ef) (Inr sigma) = Inr p" using p(1) by simp
  have "fle (mag_diff (fadd (Inr f) (Inr p))) (Inr m)"
  proof -
    have "f \<le> f + p" using p(2) by simp
    from round64_above [OF assms(1,2) this] show ?thesis
    proof
      assume "round64 (f + p) = Inl PosInf"
      then show ?thesis by (simp add: mag_diff_PosInf)
    next
      assume "\<exists>v. round64 (f + p) = Inr v \<and> f \<le> v"
      then obtain a where a: "round64 (f + p) = Inr a" "f \<le> a" by blast
      have a0: "0 < a" using a(2) assms(2) by linarith
      from round64_pos_range [OF a(1) a0] obtain u where u: "mag_diff (Inr a) = Inr u"
        using mag_diff_finite by blast
      have "u \<le> m" using assms(2) a(2) mf u by (rule mag_diff_antimono)
      with a(1) u show ?thesis by simp
    qed
  qed
  moreover have "fle (Inr m) (mag_diff (fsub (Inr f) (Inr p)))"
  proof -
    have "0 \<le> f - p" "f - p \<le> f" using p(2,3) by simp_all
    then obtain b where b: "round64 (f - p) = Inr b" "0 \<le> b" "b \<le> f"
      using round64_between [OF _ _ assms(1)] by blast
    show ?thesis
    proof (cases "b = 0")
      case True
      with b(1) show ?thesis by (simp add: fsub_Inr mag_diff_zero)
    next
      case False
      with b(2) have b0: "0 < b" by simp
      from round64_pos_range [OF b(1) b0] obtain l where l: "mag_diff (Inr b) = Inr l"
        using mag_diff_finite by blast
      have "m \<le> l" using b0 b(3) l mf by (rule mag_diff_antimono)
      with b(1) l show ?thesis by (simp add: fsub_Inr)
    qed
  qed
  ultimately show ?thesis
    by (simp only: dm_field dm_upper_field dm_lower_field pm mf)
qed

subsection \<open>Positivity of the computed separation\<close>

lemma sep_positive:
  assumes "pow2 (- 500) \<le> spec_sep x y" and "spec_sep x y \<le> pow2 500"
  shows "\<exists>v w. sep (convert_params x y f ex ey ef sigma) = Inr v \<and> 0 < v \<and>
               \<bar>v - spec_sep x y\<bar> \<le> pow2 (- 50) * spec_sep x y \<and>
               fsquare (Inr v) = Inr w \<and> 0 < w"
proof -
  define s where "s = spec_sep x y"
  have s0: "0 < s" using assms(1) pow2_pos [of "- 500"] unfolding s_def by linarith
  have ms: "mag 500 s"
    using assms s0 unfolding s_def by (intro magI) simp_all
  obtain v where v: "sep (convert_params x y f ex ey ef sigma) = Inr v" "approx 3 v s"
    using sep_approx [OF ms [unfolded s_def]] unfolding s_def by blast
  have v0: "0 < v" using approx_sgn(1) [OF v(2) _ s0] by simp
  have "mag (500 + 500) (s * s)" using ms ms by (rule mag_mult)
  then have "mag 1021 (s * s)" by (rule mag_mono) simp
  with v(2) obtain w where w: "fsquare (Inr v) = Inr w" "approx (3 + 3 + 2) w (s * s)"
    using fsquare_approx [of 3 v s] by auto
  have "0 < s * s" using s0 by simp
  then have w0: "0 < w" using approx_sgn(1) [OF w(2)] by simp
  have "real (3::nat) * pow2 (- 52) \<le> pow2 (- 50)" by (simp add: pow2_neg_numeral)
  with v(2) have "\<bar>v - s\<bar> \<le> pow2 (- 50) * \<bar>s\<bar>" by (rule approx_bound)
  then have "\<bar>v - s\<bar> \<le> pow2 (- 50) * s" using s0 by simp
  with v(1) v0 w(1) w0 show ?thesis unfolding s_def by blast
qed

lemma spec_sep_axis: "0 \<le> a \<Longrightarrow> spec_sep a 0 = a"
  by (simp add: spec_sep_def)

section \<open>Properties\<close>

text \<open>
  C1. The specification gives the position-angle uncertainty in degrees as
  \<open>sigma * sqrt ((y / separation\<^sup>2 * ex)\<^sup>2 + (- x / separation\<^sup>2 * ey)\<^sup>2)\<close>, which is
  \<open>spec_pa_unc\<close>. The code converts the square root from radians to degrees before
  scaling it, so the formula as written fails: for \<open>x = 1\<close>, \<open>y = 0\<close>, \<open>ex = 0\<close>,
  \<open>ey = 1\<close>, \<open>sigma = 1\<close> the formula gives 1 and the code a value near \<open>180 / pi\<close>.
  Nor does any formula hold for every offset other than the origin: for \<open>x = 2\<^sup>-\<^sup>6\<^sup>0\<^sup>0\<close>,
  \<open>y = 0\<close> the square of the separation underflows and the result is \<^verbatim>\<open>nan\<close>.
\<close>

theorem pa_unc_formula_counterexample:
  "pa_unc (convert_params 1 0 1 0 1 0 1) \<noteq> Inr (spec_pa_unc 1 0 0 1 1) \<and>
   (pow2 (- 600), 0::real) \<noteq> (0, 0) \<and>
   pa_unc (convert_params (pow2 (- 600)) 0 1 1 1 0 1) = Inl NaN"
proof -
  have m: "mag 64 1" "mag 64 0" by (simp_all add: mag_def pow2_numeral pow2_neg_numeral)
  have ne: "(1::real) \<noteq> 0 \<or> (0::real) \<noteq> 0" by simp
  obtain u where u: "pa_unc (convert_params 1 0 1 0 1 0 1) = Inr u"
      "approx 40 u (180 / pi * spec_pa_unc 1 0 0 1 1)"
    using pa_unc_approx [OF m(1) m(2) ne m(2) m(1) m(1)] by blast
  have s: "spec_pa_unc 1 0 0 1 1 = 1" by (simp add: spec_pa_unc_def spec_sep_def)
  from u(2) have "approx 40 u (180 / pi)" by (simp add: s)
  then obtain d where d: "u = 180 / pi * (1 + d)" "\<bar>d\<bar> \<le> real (40::nat) * pow2 (- 52)"
    by (rule approxE)
  have "real (40::nat) * pow2 (- 52) \<le> 1 / 2 ^ 30" by (rule eps_small) simp
  then have "\<bar>d\<bar> \<le> 1 / 2" using d(2) by simp
  then have h: "1 / 2 \<le> 1 + d" by linarith
  have b: "45 \<le> 180 / pi" using pi_less_4 by (simp add: field_simps)
  have "45 * (1 / 2) \<le> 180 / pi * (1 + d)" using b h by (intro mult_mono) simp_all
  then have "1 < 180 / pi * (1 + d)" by linarith
  then have "1 < u" by (simp only: d(1))
  with u(1) s show ?thesis by (simp add: pa_unc_underflow)
qed

text \<open>
  C1, amended. Away from the origin, with \<open>x\<close>, \<open>y\<close>, \<open>ex\<close>, \<open>ey\<close> and \<open>sigma\<close> each zero
  or of magnitude between \<open>2\<^sup>-\<^sup>6\<^sup>4\<close> and \<open>2\<^sup>6\<^sup>4\<close>, the position-angle uncertainty is a finite
  number that agrees with \<open>180 / pi\<close> times the formula of the specification to a relative
  error of \<open>2\<^sup>-\<^sup>4\<^sup>6\<close>.
\<close>

theorem pa_unc_formula:
  assumes "(x, y) \<noteq> (0, 0)"
    and "mag 64 x" and "mag 64 y" and "mag 64 ex" and "mag 64 ey" and "mag 64 sigma"
  shows "\<exists>u. pa_unc (convert_params x y f ex ey ef sigma) = Inr u \<and>
             \<bar>u - 180 / pi * spec_pa_unc x y ex ey sigma\<bar>
               \<le> pow2 (- 46) * \<bar>180 / pi * spec_pa_unc x y ex ey sigma\<bar>"
proof -
  from assms(1) have ne: "x \<noteq> 0 \<or> y \<noteq> 0" by simp
  obtain u where u: "pa_unc (convert_params x y f ex ey ef sigma) = Inr u"
      "approx 40 u (180 / pi * spec_pa_unc x y ex ey sigma)"
    using pa_unc_approx [OF assms(2,3) ne assms(4,5,6)] by blast
  have "real (40::nat) * pow2 (- 52) \<le> pow2 (- 46)" by (simp add: pow2_neg_numeral)
  with u(2) have "\<bar>u - 180 / pi * spec_pa_unc x y ex ey sigma\<bar>
      \<le> pow2 (- 46) * \<bar>180 / pi * spec_pa_unc x y ex ey sigma\<bar>"
    by (rule approx_bound)
  with u(1) show ?thesis by blast
qed

theorem pa_unc_formula_witness:
  "(3::real, 4::real) \<noteq> (0, 0) \<and> mag 64 3 \<and> mag 64 4 \<and> mag 64 1 \<and>
   (\<exists>u. pa_unc (convert_params 3 4 1 1 1 0 1) = Inr u \<and>
        \<bar>u - 180 / pi * spec_pa_unc 3 4 1 1 1\<bar> \<le> pow2 (- 46) * \<bar>180 / pi * spec_pa_unc 3 4 1 1 1\<bar>)"
proof -
  have ne: "(3::real, 4::real) \<noteq> (0, 0)" by simp
  have m: "mag 64 3" "mag 64 4" "mag 64 1"
    by (simp_all add: mag_def pow2_numeral pow2_neg_numeral)
  from pa_unc_formula [OF ne m(1) m(2) m(3) m(3) m(3), of 1 0] ne m show ?thesis by blast
qed

text \<open>
  C2. For \<open>x = 258.7\<close>, \<open>y = 107.3\<close> the specification expects a position angle of
  about 292.6 degrees. Both coordinates are positive, so \<open>arctan2\<close> is in the first
  quadrant and the position angle is above 360: it is a finite number at least 134
  degrees above 292.6.
\<close>

theorem known_scenario_counterexample:
  "\<not> isl (pa (convert_params 258.7 107.3 0.024 0 0 0 1)) \<and>
   fle (Inr (292.6 + 134)) (pa (convert_params 258.7 107.3 0.024 0 0 0 1))"
proof -
  obtain p where p: "pa (convert_params 258.7 107.3 0.024 0 0 0 1) = Inr p"
      "\<bar>p - spec_pa 258.7 107.3\<bar> \<le> pow2 (- 40)"
    using pa_close by blast
  have "pow2 (- 40) \<le> 1 / 10" by (simp add: pow2_neg_numeral)
  moreover have "427 < spec_pa 258.7 107.3" using pa_scenario_east(1) by simp
  ultimately have "427 \<le> p + 1 / 10" using p(2) by linarith
  then have "292.6 + 134 \<le> p" by simp
  with p(1) show ?thesis by simp
qed

text \<open>
  C2, amended. For \<open>x = 258.7\<close>, \<open>y = 107.3\<close>, \<open>f = 0.024\<close> and any uncertainties the
  separation is within 0.1 of 280.0, the position angle within 0.05 of 427.5 and the
  magnitude difference within 0.05 of 4.0. The position angle of about 292.6 degrees
  (within 0.1) belongs to the mirrored offset \<open>x = - 258.7\<close>, with the same separation
  and magnitude difference.
\<close>

theorem known_scenario:
  "(\<exists>s p m. sep (convert_params 258.7 107.3 0.024 ex ey ef sigma) = Inr s \<and>
            pa (convert_params 258.7 107.3 0.024 ex ey ef sigma) = Inr p \<and>
            dm (convert_params 258.7 107.3 0.024 ex ey ef sigma) = Inr m \<and>
            \<bar>s - 280.0\<bar> < 0.1 \<and> \<bar>p - 427.5\<bar> < 0.05 \<and> \<bar>m - 4.0\<bar> < 0.05) \<and>
   (\<exists>s p m. sep (convert_params (- 258.7) 107.3 0.024 ex ey ef sigma) = Inr s \<and>
            pa (convert_params (- 258.7) 107.3 0.024 ex ey ef sigma) = Inr p \<and>
            dm (convert_params (- 258.7) 107.3 0.024 ex ey ef sigma) = Inr m \<and>
            \<bar>s - 280.0\<bar> < 0.1 \<and> \<bar>p - 292.6\<bar> < 0.1 \<and> \<bar>m - 4.0\<bar> < 0.05)"
proof -
  have e40: "pow2 (- 40) \<le> 1 / 10000" by (simp add: pow2_neg_numeral)
  have e50: "pow2 (- 50) \<le> 1 / 100000" by (simp add: pow2_neg_numeral)
  have se: "280.06 < spec_sep 258.7 107.3" "spec_sep 258.7 107.3 < 280.07"
    using sep_scenario_bounds by (simp_all add: spec_sep_def)
  have se': "280 < spec_sep 258.7 107.3" "spec_sep 258.7 107.3 < 281"
    using se by simp_all
  have sw: "spec_sep (- 258.7) 107.3 = spec_sep 258.7 107.3" by (simp add: spec_sep_def)
  have r: "pow2 (- 500) \<le> spec_sep 258.7 107.3" "spec_sep 258.7 107.3 \<le> pow2 500"
  proof -
    have "pow2 (- 500) \<le> 1" by (rule pow2_le_one) simp
    with se'(1) show "pow2 (- 500) \<le> spec_sep 258.7 107.3" by linarith
    have "(281::real) \<le> pow2 500" by (simp add: pow2_numeral)
    with se'(2) show "spec_sep 258.7 107.3 \<le> pow2 500" by linarith
  qed
  have sep_near: "\<exists>s. sep (convert_params x 107.3 0.024 ex ey ef sigma) = Inr s \<and> \<bar>s - 280.0\<bar> < 0.1"
    if "spec_sep x 107.3 = spec_sep 258.7 107.3" for x
  proof -
    have rx: "pow2 (- 500) \<le> spec_sep x 107.3" "spec_sep x 107.3 \<le> pow2 500"
      using r by (simp_all only: that)
    obtain s where s: "sep (convert_params x 107.3 0.024 ex ey ef sigma) = Inr s"
        "\<bar>s - spec_sep x 107.3\<bar> \<le> pow2 (- 50) * spec_sep x 107.3"
      using sep_positive [OF rx] by blast
    have "pow2 (- 50) * spec_sep 258.7 107.3 \<le> 1 / 100000 * 281"
      using e50 se' by (intro mult_mono) simp_all
    with s(2) have "\<bar>s - spec_sep 258.7 107.3\<bar> \<le> 1 / 100" unfolding that by linarith
    moreover have "28006 < spec_sep 258.7 107.3 * 100" "spec_sep 258.7 107.3 * 100 < 28007"
      using se by simp_all
    ultimately have "\<bar>s - 280\<bar> < 1 / 10" by linarith
    then have "\<bar>s - 280.0\<bar> < 0.1" by simp
    with s(1) show ?thesis by blast
  qed
  have dm_near: "\<exists>m. dm (convert_params x 107.3 0.024 ex ey ef sigma) = Inr m \<and> \<bar>m - 4.0\<bar> < 0.05"
    for x
  proof -
    have "pow2 (- 1022) \<le> 1 / 1024" by (simp add: pow2_neg_numeral)
    then have "pow2 (- 1022) \<le> 0.024" by simp
    moreover have "(1::real) \<le> pow2 1022" by (simp add: pow2_numeral)
    then have "0.024 \<le> pow2 1022" by simp
    ultimately obtain m where m: "dm (convert_params x 107.3 0.024 ex ey ef sigma) = Inr m"
        "\<bar>m - spec_mag_diff 0.024\<bar> \<le> pow2 (- 40)"
      using dm_finite by blast
    have "4 < spec_mag_diff 0.024" using dm_scenario_bounds(1) by (simp add: spec_mag_diff_def)
    moreover have "\<bar>m - spec_mag_diff 0.024\<bar> \<le> 1 / 10000" using m(2) e40 by linarith
    moreover have "spec_mag_diff 0.024 < 40496 / 10000" using dm_scenario_gap by simp
    ultimately have "\<bar>m - 4\<bar> < 5 / 100" by linarith
    then have "\<bar>m - 4.0\<bar> < 0.05" by simp
    with m(1) show ?thesis by blast
  qed
  have east: "\<exists>p. pa (convert_params 258.7 107.3 0.024 ex ey ef sigma) = Inr p \<and> \<bar>p - 427.5\<bar> < 0.05"
  proof -
    obtain p where p: "pa (convert_params 258.7 107.3 0.024 ex ey ef sigma) = Inr p"
        "\<bar>p - spec_pa 258.7 107.3\<bar> \<le> pow2 (- 40)"
      using pa_close by blast
    from p(2) e40 have "\<bar>p - spec_pa 258.7 107.3\<bar> \<le> 1 / 10000" by linarith
    moreover have "427455 / 1000 < spec_pa 258.7 107.3" "spec_pa 258.7 107.3 < 4275 / 10"
      using pa_scenario_east by simp_all
    ultimately have "\<bar>p - 4275 / 10\<bar> < 5 / 100" by linarith
    then have "\<bar>p - 427.5\<bar> < 0.05" by simp
    with p(1) show ?thesis by blast
  qed
  have west: "\<exists>p. pa (convert_params (- 258.7) 107.3 0.024 ex ey ef sigma) = Inr p \<and> \<bar>p - 292.6\<bar> < 0.1"
  proof -
    obtain p where p: "pa (convert_params (- 258.7) 107.3 0.024 ex ey ef sigma) = Inr p"
        "\<bar>p - spec_pa (- 258.7) 107.3\<bar> \<le> pow2 (- 40)"
      using pa_close by blast
    from p(2) e40 have "\<bar>p - spec_pa (- 258.7) 107.3\<bar> \<le> 1 / 10000" by linarith
    moreover have "292509 / 1000 < spec_pa (- 258.7) 107.3"
        "spec_pa (- 258.7) 107.3 < 292545 / 1000"
      using pa_scenario_west(2) pa_scenario_west_gap by simp_all
    ultimately have "\<bar>p - 2926 / 10\<bar> < 1 / 10" by linarith
    then have "\<bar>p - 292.6\<bar> < 0.1" by simp
    with p(1) show ?thesis by blast
  qed
  from sep_near [OF refl] sep_near [OF sw] dm_near [of "258.7"] dm_near [of "- 258.7"] east west
  show ?thesis by blast
qed

text \<open>
  C3. The specification takes the separation to be strictly positive away from the
  origin. In binary64 the sum of squares underflows for small offsets: for
  \<open>x = 2\<^sup>-\<^sup>6\<^sup>0\<^sup>0\<close> (a double) and \<open>y = 0\<close> the computed separation is 0, the division
  \<open>x / sep\<close> is a division by zero with an infinite result, and both uncertainties
  are \<^verbatim>\<open>nan\<close>.
\<close>

theorem separation_positive_counterexample:
  "(pow2 (- 600), 0::real) \<noteq> (0, 0) \<and> is_double (pow2 (- 600)) \<and>
   sep (convert_params (pow2 (- 600)) 0 1 1 1 0 1) = Inr 0 \<and>
   fdiv (Inr (pow2 (- 600))) (Inr 0) = Inl PosInf \<and>
   sep_unc (convert_params (pow2 (- 600)) 0 1 1 1 0 1) = Inl NaN \<and>
   pa_unc (convert_params (pow2 (- 600)) 0 1 1 1 0 1) = Inl NaN"
proof -
  have "is_double (pow2 (- 600))" by (rule is_double_pow2) simp_all
  then show ?thesis
    by (simp add: sep_underflow sep_unc_underflow pa_unc_underflow)
qed

text \<open>
  C3, amended. When the exact separation \<open>sqrt (x\<^sup>2 + y\<^sup>2)\<close> lies between \<open>2\<^sup>-\<^sup>5\<^sup>0\<^sup>0\<close> and
  \<open>2\<^sup>5\<^sup>0\<^sup>0\<close>, the computed separation and its square are finite and strictly positive,
  so each of the four divisions is an ordinary rounded quotient and not a division by
  zero. When moreover \<open>x\<close>, \<open>y\<close>, \<open>ex\<close>, \<open>ey\<close> and \<open>sigma\<close> are each zero or of magnitude
  between \<open>2\<^sup>-\<^sup>6\<^sup>4\<close> and \<open>2\<^sup>6\<^sup>4\<close>, both uncertainties are finite. The function has no guard of
  its own: at the origin the division \<open>0 / 0\<close> is carried out and both uncertainties
  are \<^verbatim>\<open>nan\<close>.
\<close>

theorem separation_positive:
  "(pow2 (- 500) \<le> spec_sep x y \<and> spec_sep x y \<le> pow2 500 \<longrightarrow>
      (\<exists>v w. sep (convert_params x y f ex ey ef sigma) = Inr v \<and> 0 < v \<and>
             fsquare (Inr v) = Inr w \<and> 0 < w \<and>
             fdiv (Inr x) (Inr v) = round64 (x / v) \<and>
             fdiv (Inr y) (Inr v) = round64 (y / v) \<and>
             fdiv (Inr y) (Inr w) = round64 (y / w) \<and>
             fdiv (fneg (Inr x)) (Inr w) = round64 (- x / w))) \<and>
   ((x, y) \<noteq> (0, 0) \<and> mag 64 x \<and> mag 64 y \<and> mag 64 ex \<and> mag 64 ey \<and> mag 64 sigma \<longrightarrow>
      \<not> isl (sep_unc (convert_params x y f ex ey ef sigma)) \<and>
      \<not> isl (pa_unc (convert_params x y f ex ey ef sigma))) \<and>
   sep_unc (convert_params 0 0 f ex ey ef sigma) = Inl NaN \<and>
   pa_unc (convert_params 0 0 f ex ey ef sigma) = Inl NaN"
proof (intro conjI impI)
  assume "pow2 (- 500) \<le> spec_sep x y \<and> spec_sep x y \<le> pow2 500"
  then obtain v w where vw: "sep (convert_params x y f ex ey ef sigma) = Inr v" "0 < v"
      "fsquare (Inr v) = Inr w" "0 < w"
    using sep_positive [of x y f ex ey ef sigma] by blast
  from vw(2,4) have
    "fdiv (Inr x) (Inr v) = round64 (x / v)" "fdiv (Inr y) (Inr v) = round64 (y / v)"
    "fdiv (Inr y) (Inr w) = round64 (y / w)" "fdiv (fneg (Inr x)) (Inr w) = round64 (- x / w)"
    by simp_all
  with vw show "\<exists>v w. sep (convert_params x y f ex ey ef sigma) = Inr v \<and> 0 < v \<and>
             fsquare (Inr v) = Inr w \<and> 0 < w \<and>
             fdiv (Inr x) (Inr v) = round64 (x / v) \<and>
             fdiv (Inr y) (Inr v) = round64 (y / v) \<and>
             fdiv (Inr y) (Inr w) = round64 (y / w) \<and>
             fdiv (fneg (Inr x)) (Inr w) = round64 (- x / w)" by blast
next
  assume a: "(x, y) \<noteq> (0, 0) \<and> mag 64 x \<and> mag 64 y \<and> mag 64 ex \<and> mag 64 ey \<and> mag 64 sigma"
  then have ne: "x \<noteq> 0 \<or> y \<noteq> 0" by simp
  from a ne sep_unc_approx [of x y ex ey sigma f ef]
  show "\<not> isl (sep_unc (convert_params x y f ex ey ef sigma))" by auto
  from a ne pa_unc_approx [of x y ex ey sigma f ef]
  show "\<not> isl (pa_unc (convert_params x y f ex ey ef sigma))" by auto
next
  show "sep_unc (convert_params 0 0 f ex ey ef sigma) = Inl NaN"
    by (simp add: sep_unc_field sep_field)
  show "pa_unc (convert_params 0 0 f ex ey ef sigma) = Inl NaN"
    by (simp add: pa_unc_field sep_field)
qed

theorem separation_positive_witness:
  "pow2 (- 500) \<le> spec_sep 3 4 \<and> spec_sep 3 4 \<le> pow2 500 \<and>
   (\<exists>v w. sep (convert_params 3 4 1 1 1 0 1) = Inr v \<and> 0 < v \<and>
          fsquare (Inr v) = Inr w \<and> 0 < w) \<and>
   (3::real, 4::real) \<noteq> (0, 0) \<and> mag 64 3 \<and> mag 64 4 \<and> mag 64 1 \<and>
   \<not> isl (sep_unc (convert_params 3 4 1 1 1 0 1)) \<and>
   \<not> isl (pa_unc (convert_params 3 4 1 1 1 0 1))"
proof -
  have "sqrt (3\<^sup>2 + 4\<^sup>2) = (5::real)" by (rule real_sqrt_unique) simp_all
  then have s: "spec_sep 3 4 = 5" by (simp add: spec_sep_def)
  have "pow2 (- 500) \<le> 1" by (rule pow2_le_one) simp
  then have r1: "pow2 (- 500) \<le> spec_sep 3 4" unfolding s by linarith
  have r2: "spec_sep 3 4 \<le> pow2 500" unfolding s by (simp add: pow2_numeral)
  have ne: "(3::real, 4::real) \<noteq> (0, 0)" by simp
  have m: "mag 64 3" "mag 64 4" "mag 64 1"
    by (simp_all add: mag_def pow2_numeral pow2_neg_numeral)
  from separation_positive [of 3 4 1 1 1 0 1] r1 r2 ne m show ?thesis by blast
qed

text \<open>
  C4. The specification states the separation and its uncertainty as exact formulas
  for every offset other than the origin. For \<open>x = 2\<^sup>-\<^sup>6\<^sup>0\<^sup>0\<close>, \<open>y = 0\<close> the exact separation
  is \<open>2\<^sup>-\<^sup>6\<^sup>0\<^sup>0\<close>, the computed one is 0 (the square underflows), and the separation
  uncertainty is \<^verbatim>\<open>nan\<close>.
\<close>

theorem separation_and_uncertainty_counterexample:
  "(pow2 (- 600), 0::real) \<noteq> (0, 0) \<and>
   sep (convert_params (pow2 (- 600)) 0 1 1 1 0 1) \<noteq> Inr (spec_sep (pow2 (- 600)) 0) \<and>
   sep_unc (convert_params (pow2 (- 600)) 0 1 1 1 0 1) \<noteq>
     Inr (spec_sep_unc (pow2 (- 600)) 0 1 1 1)"
  by (simp add: sep_underflow sep_unc_underflow spec_sep_axis)

text \<open>
  C4, amended. Away from the origin, with \<open>x\<close>, \<open>y\<close>, \<open>ex\<close>, \<open>ey\<close> and \<open>sigma\<close> each zero
  or of magnitude between \<open>2\<^sup>-\<^sup>6\<^sup>4\<close> and \<open>2\<^sup>6\<^sup>4\<close>, the separation is a finite number within a
  relative error of \<open>2\<^sup>-\<^sup>5\<^sup>0\<close> of \<open>sqrt (x\<^sup>2 + y\<^sup>2)\<close>, and the separation uncertainty a
  finite number within a relative error of \<open>2\<^sup>-\<^sup>4\<^sup>7\<close> of
  \<open>sigma * sqrt ((x / separation * ex)\<^sup>2 + (y / separation * ey)\<^sup>2)\<close>.
\<close>

theorem separation_and_uncertainty:
  assumes "(x, y) \<noteq> (0, 0)"
    and "mag 64 x" and "mag 64 y" and "mag 64 ex" and "mag 64 ey" and "mag 64 sigma"
  shows "\<exists>v u. sep (convert_params x y f ex ey ef sigma) = Inr v \<and>
               \<bar>v - spec_sep x y\<bar> \<le> pow2 (- 50) * spec_sep x y \<and>
               sep_unc (convert_params x y f ex ey ef sigma) = Inr u \<and>
               \<bar>u - spec_sep_unc x y ex ey sigma\<bar> \<le> pow2 (- 47) * \<bar>spec_sep_unc x y ex ey sigma\<bar>"
proof -
  from assms(1) have ne: "x \<noteq> 0 \<or> y \<noteq> 0" by simp
  have s0: "0 < spec_sep x y" using ne by (rule spec_sep_pos)
  have "mag 129 (spec_sep x y)" using assms(2,3) by (rule mag_spec_sep)
  then have "mag 500 (spec_sep x y)" by (rule mag_mono) simp
  then obtain v where v: "sep (convert_params x y f ex ey ef sigma) = Inr v"
      "approx 3 v (spec_sep x y)"
    using sep_approx by blast
  have "real (3::nat) * pow2 (- 52) \<le> pow2 (- 50)" by (simp add: pow2_neg_numeral)
  with v(2) have "\<bar>v - spec_sep x y\<bar> \<le> pow2 (- 50) * \<bar>spec_sep x y\<bar>" by (rule approx_bound)
  then have vs: "\<bar>v - spec_sep x y\<bar> \<le> pow2 (- 50) * spec_sep x y" using s0 by simp
  obtain u where u: "sep_unc (convert_params x y f ex ey ef sigma) = Inr u"
      "approx 24 u (spec_sep_unc x y ex ey sigma)"
    using sep_unc_approx [OF assms(2,3) ne assms(4,5,6)] by blast
  have "real (24::nat) * pow2 (- 52) \<le> pow2 (- 47)" by (simp add: pow2_neg_numeral)
  with u(2) have "\<bar>u - spec_sep_unc x y ex ey sigma\<bar> \<le> pow2 (- 47) * \<bar>spec_sep_unc x y ex ey sigma\<bar>"
    by (rule approx_bound)
  with v(1) vs u(1) show ?thesis by blast
qed

theorem separation_and_uncertainty_witness:
  "(3::real, 4::real) \<noteq> (0, 0) \<and> mag 64 3 \<and> mag 64 4 \<and> mag 64 1 \<and> mag 64 2 \<and>
   (\<exists>v u. sep (convert_params 3 4 1 1 2 0 2) = Inr v \<and>
          \<bar>v - spec_sep 3 4\<bar> \<le> pow2 (- 50) * spec_sep 3 4 \<and>
          sep_unc (convert_params 3 4 1 1 2 0 2) = Inr u \<and>
          \<bar>u - spec_sep_unc 3 4 1 2 2\<bar> \<le> pow2 (- 47) * \<bar>spec_sep_unc 3 4 1 2 2\<bar>)"
proof -
  have ne: "(3::real, 4::real) \<noteq> (0, 0)" by simp
  have m: "mag 64 3" "mag 64 4" "mag 64 1" "mag 64 2"
    by (simp_all add: mag_def pow2_numeral pow2_neg_numeral)
  from separation_and_uncertainty [OF ne m(1) m(2) m(3) m(4) m(4), of 1 0] ne m
  show ?thesis by blast
qed

text \<open>
  C5. The specification expects the round trip to reproduce the separation \<open>s\<close>
  for every \<open>s > 0\<close>. For \<open>s = 2\<^sup>-\<^sup>6\<^sup>0\<^sup>0\<close> and the angle 90 degrees the computed separation
  is 0.
\<close>

theorem round_trip_counterexample:
  "0 < pow2 (- 600) \<and>
   sep (convert_params (pow2 (- 600) * sin (np_deg2rad 90)) (pow2 (- 600) * cos (np_deg2rad 90))
          1 0 0 0 1) \<noteq> Inr (pow2 (- 600))"
proof -
  have e: "np_deg2rad 90 = pi / 2" by (simp add: np_deg2rad_def)
  show ?thesis by (simp only: e sin_pi_half cos_pi_half) (simp add: sep_underflow)
qed

text \<open>
  C5, amended. Round trip: for a separation \<open>s\<close> between \<open>2\<^sup>-\<^sup>5\<^sup>0\<^sup>0\<close> and \<open>2\<^sup>5\<^sup>0\<^sup>0\<close> and any
  angle \<open>\<theta>\<close> in degrees, the point \<open>x = s * sin \<theta>\<close>, \<open>y = s * cos \<theta>\<close> is converted back
  to a separation within a relative error of \<open>2\<^sup>-\<^sup>5\<^sup>0\<close> of \<open>s\<close> and to a position angle
  within \<open>2\<^sup>-\<^sup>4\<^sup>0\<close> degrees of \<open>\<theta>\<close> plus a whole number of turns of 360 degrees.
\<close>

theorem round_trip:
  assumes "pow2 (- 500) \<le> s" and "s \<le> pow2 500"
  shows "\<exists>v p. sep (convert_params (s * sin (np_deg2rad \<theta>)) (s * cos (np_deg2rad \<theta>))
                     f ex ey ef sigma) = Inr v \<and>
               \<bar>v - s\<bar> \<le> pow2 (- 50) * s \<and>
               pa (convert_params (s * sin (np_deg2rad \<theta>)) (s * cos (np_deg2rad \<theta>))
                     f ex ey ef sigma) = Inr p \<and>
               (\<exists>n::int. \<bar>p - (\<theta> + 360 * of_int n)\<bar> \<le> pow2 (- 40))"
proof -
  define x where "x = s * sin (np_deg2rad \<theta>)"
  define y where "y = s * cos (np_deg2rad \<theta>)"
  have s0: "0 < s" using assms(1) pow2_pos [of "- 500"] by linarith
  have ss: "spec_sep x y = s" unfolding spec_sep_def x_def y_def using s0 by (rule sep_polar)
  obtain v where v: "sep (convert_params x y f ex ey ef sigma) = Inr v"
      "\<bar>v - spec_sep x y\<bar> \<le> pow2 (- 50) * spec_sep x y"
    using sep_positive [of x y f ex ey ef sigma] assms unfolding ss by blast
  obtain p where p: "pa (convert_params x y f ex ey ef sigma) = Inr p"
      "\<bar>p - spec_pa x y\<bar> \<le> pow2 (- 40)"
    using pa_close by blast
  obtain n :: int where n: "arctan2 x y = np_deg2rad \<theta> + 2 * pi * of_int n"
    unfolding x_def y_def using arctan2_sin_cos_cong [OF s0] by blast
  have "spec_pa x y = \<theta> + 360 * of_int (n + 1)"
    by (simp add: spec_pa_def n np_deg2rad_def field_simps)
  with p(2) have "\<exists>n::int. \<bar>p - (\<theta> + 360 * of_int n)\<bar> \<le> pow2 (- 40)" by metis
  moreover have "\<bar>v - s\<bar> \<le> pow2 (- 50) * s" using v(2) by (simp only: ss)
  ultimately show ?thesis using v(1) p(1) unfolding x_def y_def by blast
qed

theorem round_trip_witness:
  "pow2 (- 500) \<le> 2 \<and> 2 \<le> pow2 500 \<and>
   (\<exists>v p. sep (convert_params (2 * sin (np_deg2rad 90)) (2 * cos (np_deg2rad 90)) 1 0 0 0 1) = Inr v \<and>
          \<bar>v - 2\<bar> \<le> pow2 (- 50) * 2 \<and>
          pa (convert_params (2 * sin (np_deg2rad 90)) (2 * cos (np_deg2rad 90)) 1 0 0 0 1) = Inr p \<and>
          (\<exists>n::int. \<bar>p - (90 + 360 * of_int n)\<bar> \<le> pow2 (- 40)))"
proof -
  have "pow2 (- 500) \<le> 1" by (rule pow2_le_one) simp
  then have r1: "pow2 (- 500) \<le> 2" by linarith
  have r2: "2 \<le> pow2 500" by (simp add: pow2_numeral)
  from round_trip [OF r1 r2, of 90 1 0 0 0 1] r1 r2 show ?thesis by blast
qed

text \<open>
  C6. The specification expects the magnitude difference to decrease strictly. In
  binary64 neighbouring flux ratios can share one logarithm: \<open>10\<^sup>2\<^sup>0\<close> and
  \<open>10\<^sup>2\<^sup>0 + 16384\<close> are consecutive doubles, and the magnitude difference of both is
  \<open>- 50\<close>.
\<close>

theorem mag_diff_decreasing_counterexample:
  "is_double (10 ^ 20) \<and> is_double (10 ^ 20 + 16384) \<and>
   (0::real) < 10 ^ 20 \<and> (10::real) ^ 20 < 10 ^ 20 + 16384 \<and>
   mag_diff (Inr (10 ^ 20)) = Inr (- 50) \<and> mag_diff (Inr (10 ^ 20 + 16384)) = Inr (- 50)"
  using is_double_1e20 mag_diff_1e20 mag_diff_1e20_next by simp

text \<open>
  C6, amended. For positive doubles \<open>f1 < f2\<close> both magnitude differences are finite
  and \<open>mag_diff f2\<close> is at most \<open>mag_diff f1\<close>: the order is kept, not always strictly.
  Each is within \<open>2\<^sup>-\<^sup>4\<^sup>0\<close> of the exact value \<open>- 2.5 * log 10 f\<close>, and the exact values
  decrease strictly.
\<close>

theorem mag_diff_decreasing:
  assumes "is_double f1" and "is_double f2" and "0 < f1" and "f1 < f2"
  shows "\<exists>m1 m2. mag_diff (Inr f1) = Inr m1 \<and> mag_diff (Inr f2) = Inr m2 \<and> m2 \<le> m1 \<and>
                 \<bar>m1 - spec_mag_diff f1\<bar> \<le> pow2 (- 40) \<and>
                 \<bar>m2 - spec_mag_diff f2\<bar> \<le> pow2 (- 40) \<and>
                 spec_mag_diff f2 < spec_mag_diff f1"
proof -
  have f2: "0 < f2" using assms(3,4) by linarith
  obtain m1 where m1: "mag_diff (Inr f1) = Inr m1" "\<bar>m1 - spec_mag_diff f1\<bar> \<le> pow2 (- 40)"
    using mag_diff_double [OF assms(1,3)] by blast
  obtain m2 where m2: "mag_diff (Inr f2) = Inr m2" "\<bar>m2 - spec_mag_diff f2\<bar> \<le> pow2 (- 40)"
    using mag_diff_double [OF assms(2) f2] by blast
  have "f1 \<le> f2" using assms(4) by simp
  with assms(3) have "m2 \<le> m1" using m1(1) m2(1) by (rule mag_diff_antimono)
  moreover have "spec_mag_diff f2 < spec_mag_diff f1"
    using assms(3,4) by (rule spec_mag_diff_strict)
  ultimately show ?thesis using m1 m2 by blast
qed

theorem mag_diff_decreasing_witness:
  "is_double 1 \<and> is_double 10 \<and> (0::real) < 1 \<and> (1::real) < 10 \<and>
   (\<exists>m1 m2. mag_diff (Inr 1) = Inr m1 \<and> mag_diff (Inr 10) = Inr m2 \<and> m2 \<le> m1 \<and>
            \<bar>m1 - spec_mag_diff 1\<bar> \<le> pow2 (- 40) \<and>
            \<bar>m2 - spec_mag_diff 10\<bar> \<le> pow2 (- 40) \<and>
            spec_mag_diff 10 < spec_mag_diff 1)"
proof -
  have d1: "is_double 1" by (simp add: is_double_def)
  have d10: "is_double 10" unfolding is_double_def by (rule round64_numeral) simp
  have o: "(0::real) < 1" "(1::real) < 10" by simp_all
  from mag_diff_decreasing [OF d1 d10 o] d1 d10 o show ?thesis by blast
qed

text \<open>
  C7. For \<open>x = 0\<close> and \<open>y > 0\<close> the position angle is exactly 360 degrees.
\<close>

theorem pa_due_north:
  assumes "0 < y"
  shows "pa (convert_params 0 y f ex ey ef sigma) = Inr 360"
  using assms by (rule pa_x0)

theorem pa_due_north_witness:
  "(0::real) < 1 \<and> pa (convert_params 0 1 1 0 0 0 1) = Inr 360"
  using pa_due_north [of 1 1 0 0 0 1] by simp

text \<open>
  C8. For the flux ratio 1 the magnitude difference is exactly 0.
\<close>

theorem mag_diff_one: "mag_diff (Inr 1) = Inr 0"
  by (rule mag_diff_1)

text \<open>
  C9. The specification expects the lower magnitude bound to be invalid exactly when
  \<open>f - sigma * ef \<le> 0\<close>. The code takes the logarithm of the computed difference,
  and rounding can cancel a positive difference: for the doubles
  \<open>f = 5404319552844596 / 2\<^sup>5\<^sup>4\<close> and \<open>ef = 3602879701896397 / 2\<^sup>5\<^sup>5\<close> with \<open>sigma = 3\<close>
  the exact difference is positive, the product \<open>ef * sigma\<close> is a tie that rounds to
  \<open>f\<close>, and the lower bound is infinite.
\<close>

theorem mag_diff_error_iff_counterexample:
  "is_double (5404319552844596 / 2 ^ 54) \<and> is_double (3602879701896397 / 2 ^ 55) \<and>
   (0::real) < 5404319552844596 / 2 ^ 54 - 3 * (3602879701896397 / 2 ^ 55) \<and>
   dm_lower (convert_params 1 1 (5404319552844596 / 2 ^ 54) 0 0 (3602879701896397 / 2 ^ 55) 3)
     = Inl PosInf"
proof -
  have "dm_lower (convert_params 1 1 (5404319552844596 / 2 ^ 54) 0 0 (3602879701896397 / 2 ^ 55) 3)
      = mag_diff (fsub (Inr (5404319552844596 / 2 ^ 54)) (Inr (5404319552844596 / 2 ^ 54)))"
    by (simp only: dm_lower_field tie_product)
  also have "\<dots> = Inl PosInf" by (simp add: fsub_Inr mag_diff_zero)
  finally show ?thesis using is_double_tie by simp
qed

text \<open>
  C9, amended. The magnitude difference of a double is an error value (infinite or
  \<^verbatim>\<open>nan\<close>) exactly when the double is not positive, and it is an error value for an
  argument that is itself infinite or \<^verbatim>\<open>nan\<close>. The function hands the three magnitude
  results through unchanged: \<open>dm\<close> is the magnitude difference of \<open>f\<close>, and the two
  bounds are those of the computed sum \<open>f + ef * sigma\<close> and the computed difference
  \<open>f - ef * sigma\<close>. So a bound is an error value exactly when its computed argument
  is not positive or not finite; for the lower bound this can happen although the
  exact \<open>f - sigma * ef\<close> is positive.
\<close>

theorem mag_diff_error_iff:
  "(is_double a \<longrightarrow> (isl (mag_diff (Inr a)) \<longleftrightarrow> a \<le> 0)) \<and>
   isl (mag_diff (Inl s)) \<and>
   dm (convert_params x y f ex ey ef sigma) = mag_diff (Inr f) \<and>
   dm_upper (convert_params x y f ex ey ef sigma)
     = mag_diff (fadd (Inr f) (fmul (Inr ef) (Inr sigma))) \<and>
   dm_lower (convert_params x y f ex ey ef sigma)
     = mag_diff (fsub (Inr f) (fmul (Inr ef) (Inr sigma))) \<and>
   (fadd (Inr f) (fmul (Inr ef) (Inr sigma)) = Inr d \<longrightarrow>
      (isl (dm_upper (convert_params x y f ex ey ef sigma)) \<longleftrightarrow> d \<le> 0)) \<and>
   (fsub (Inr f) (fmul (Inr ef) (Inr sigma)) = Inr d' \<longrightarrow>
      (isl (dm_lower (convert_params x y f ex ey ef sigma)) \<longleftrightarrow> d' \<le> 0)) \<and>
   (isl (fadd (Inr f) (fmul (Inr ef) (Inr sigma))) \<longrightarrow>
      isl (dm_upper (convert_params x y f ex ey ef sigma))) \<and>
   (isl (fsub (Inr f) (fmul (Inr ef) (Inr sigma))) \<longrightarrow>
      isl (dm_lower (convert_params x y f ex ey ef sigma)))"
proof (intro conjI impI)
  assume "is_double a"
  then show "isl (mag_diff (Inr a)) \<longleftrightarrow> a \<le> 0" by (rule isl_mag_diff_double)
next
  show "isl (mag_diff (Inl s))" by simp
next
  assume e: "fadd (Inr f) (fmul (Inr ef) (Inr sigma)) = Inr d"
  then obtain r where "round64 r = Inr d" using fadd_Inr_result by blast
  then have "isl (mag_diff (Inr d)) \<longleftrightarrow> d \<le> 0" by (rule isl_mag_diff_round)
  then show "isl (dm_upper (convert_params x y f ex ey ef sigma)) \<longleftrightarrow> d \<le> 0"
    by (simp only: dm_upper_field e)
next
  assume e: "fsub (Inr f) (fmul (Inr ef) (Inr sigma)) = Inr d'"
  then obtain r where "round64 r = Inr d'" using fsub_Inr_result by blast
  then have "isl (mag_diff (Inr d')) \<longleftrightarrow> d' \<le> 0" by (rule isl_mag_diff_round)
  then show "isl (dm_lower (convert_params x y f ex ey ef sigma)) \<longleftrightarrow> d' \<le> 0"
    by (simp only: dm_lower_field e)
next
  assume "isl (fadd (Inr f) (fmul (Inr ef) (Inr sigma)))"
  then show "isl (dm_upper (convert_params x y f ex ey ef sigma))"
    unfolding dm_upper_field by (rule fadd_Inl_result)
next
  assume "isl (fsub (Inr f) (fmul (Inr ef) (Inr sigma)))"
  then show "isl (dm_lower (convert_params x y f ex ey ef sigma))"
    unfolding dm_lower_field fsub_def by (rule fadd_Inl_result)
qed (simp_all only: dm_field dm_upper_field dm_lower_field)

theorem mag_diff_error_iff_witness:
  "is_double 0 \<and> isl (mag_diff (Inr 0)) \<and> is_double 1 \<and> \<not> isl (mag_diff (Inr 1)) \<and>
   fadd (Inr 1) (fmul (Inr 1) (Inr 2)) = Inr 3 \<and>
   \<not> isl (dm_upper (convert_params 1 1 1 0 0 1 2)) \<and>
   fsub (Inr 1) (fmul (Inr 1) (Inr 2)) = Inr (- 1) \<and>
   isl (dm_lower (convert_params 1 1 1 0 0 1 2)) \<and>
   isl (fadd (Inr (pow2 1023)) (fmul (Inr (pow2 1023)) (Inr 1))) \<and>
   isl (dm_upper (convert_params 1 1 (pow2 1023) 0 0 (pow2 1023) 1)) \<and>
   isl (fsub (Inr (- pow2 1023)) (fmul (Inr (pow2 1023)) (Inr 1))) \<and>
   isl (dm_lower (convert_params 1 1 (- pow2 1023) 0 0 (pow2 1023) 1))"
proof -
  have r2: "round64 2 = Inr 2" by (rule round64_numeral) simp
  have r3: "round64 3 = Inr 3" by (rule round64_numeral) simp
  have rm: "round64 (- 1) = Inr (- 1)" using round64_int [of "- 1"] by simp
  have d0: "is_double 0" and d1: "is_double 1" by (simp_all add: is_double_def)
  have up: "fadd (Inr 1) (fmul (Inr 1) (Inr 2)) = Inr 3" by (simp add: r2 r3)
  have lo: "fsub (Inr 1) (fmul (Inr 1) (Inr 2)) = Inr (- 1)" by (simp add: r2 rm fsub_Inr)
  have big: "fmul (Inr (pow2 1023)) (Inr 1) = Inr (pow2 1023)" by (simp add: round64_pow2)
  have "- pow2 1023 - pow2 1023 = - pow2 1024" using pow2_1023_twice by linarith
  then have ovl: "isl (fsub (Inr (- pow2 1023)) (fmul (Inr (pow2 1023)) (Inr 1)))"
    by (simp only: big fsub_Inr round64_overflow) simp
  have ovu: "isl (fadd (Inr (pow2 1023)) (fmul (Inr (pow2 1023)) (Inr 1)))"
    by (simp only: big fadd.simps pow2_1023_twice round64_overflow) simp
  have "isl (mag_diff (Inr 0)) \<longleftrightarrow> (0::real) \<le> 0"
    using mag_diff_error_iff [of 0 NaN 1 1 1 0 0 1 2 3 "- 1"] d0 by blast
  moreover have "(isl (mag_diff (Inr 1)) \<longleftrightarrow> (1::real) \<le> 0) \<and>
      (isl (dm_upper (convert_params 1 1 1 0 0 1 2)) \<longleftrightarrow> (3::real) \<le> 0) \<and>
      (isl (dm_lower (convert_params 1 1 1 0 0 1 2)) \<longleftrightarrow> (- 1::real) \<le> 0)"
    using mag_diff_error_iff [of 1 NaN 1 1 1 0 0 1 2 3 "- 1"] d1 up lo by blast
  moreover have "isl (dm_upper (convert_params 1 1 (pow2 1023) 0 0 (pow2 1023) 1))"
    using mag_diff_error_iff [of 1 NaN 1 1 "pow2 1023" 0 0 "pow2 1023" 1 0 0] ovu by blast
  moreover have "isl (dm_lower (convert_params 1 1 (- pow2 1023) 0 0 (pow2 1023) 1))"
    using mag_diff_error_iff [of 1 NaN 1 1 "- pow2 1023" 0 0 "pow2 1023" 1 0 0] ovl by blast
  ultimately show ?thesis using d0 d1 up lo ovu ovl by simp
qed

text \<open>
  C10. The specification expects \<open>dm_upper < dm < dm_lower\<close> whenever \<open>f\<close>, \<open>ef\<close>,
  \<open>sigma\<close> and \<open>f - sigma * ef\<close> are positive. A small uncertainty is absorbed by
  rounding: for \<open>f = 1\<close>, \<open>ef = 2\<^sup>-\<^sup>6\<^sup>0\<close>, \<open>sigma = 1\<close> the three values are all 0.
\<close>

theorem mag_bounds_bracket_counterexample:
  "(0::real) < 1 \<and> 0 < pow2 (- 60) \<and> 0 < 1 - 1 * pow2 (- 60) \<and>
   is_double 1 \<and> is_double (pow2 (- 60)) \<and>
   dm_upper (convert_params 1 1 1 0 0 (pow2 (- 60)) 1) = Inr 0 \<and>
   dm (convert_params 1 1 1 0 0 (pow2 (- 60)) 1) = Inr 0 \<and>
   dm_lower (convert_params 1 1 1 0 0 (pow2 (- 60)) 1) = Inr 0"
proof -
  have "pow2 (- 60) < 1" by (simp add: pow2_neg_numeral)
  moreover have "is_double (pow2 (- 60))" by (rule is_double_pow2) simp_all
  moreover have "is_double 1" by (simp add: is_double_def)
  moreover have "dm_upper (convert_params 1 1 1 0 0 (pow2 (- 60)) 1) = Inr 0"
    by (simp only: dm_upper_field absorb_product fadd.simps absorb_up mag_diff_1)
  moreover have "dm_lower (convert_params 1 1 1 0 0 (pow2 (- 60)) 1) = Inr 0"
    by (simp only: dm_lower_field absorb_product fsub_Inr absorb_down mag_diff_1)
  moreover have "dm (convert_params 1 1 1 0 0 (pow2 (- 60)) 1) = Inr 0"
    by (simp only: dm_field mag_diff_1)
  ultimately show ?thesis by simp
qed

text \<open>
  C10, amended. For a positive double \<open>f\<close> and positive \<open>ef\<close>, \<open>sigma\<close> with
  \<open>f - sigma * ef > 0\<close> the returned values are ordered \<open>dm_upper \<le> dm \<le> dm_lower\<close> in
  the order of IEEE comparison (\<open>dm_upper\<close> may be \<open>- \<infinity>\<close> and \<open>dm_lower\<close> may be \<open>+ \<infinity>\<close>):
  the value named \<open>dm_upper\<close> is the smaller magnitude difference and \<open>dm_lower\<close> the
  larger, without strictness. The exact magnitude differences of \<open>f + sigma * ef\<close>, \<open>f\<close>
  and \<open>f - sigma * ef\<close> bracket strictly and asymmetrically, the gap below \<open>dm\<close> being
  smaller than the gap above. For \<open>f\<close> between \<open>2\<^sup>-\<^sup>1\<^sup>0\<^sup>2\<^sup>2\<close> and \<open>2\<^sup>1\<^sup>0\<^sup>2\<^sup>2\<close> the computed
  \<open>dm_upper\<close> and \<open>dm\<close> are within \<open>2\<^sup>-\<^sup>3\<^sup>9\<close> of their exact values, and so is \<open>dm_lower\<close>
  when \<open>sigma * ef\<close> is at most half of \<open>f\<close>.
\<close>

theorem mag_bounds_bracket:
  assumes "is_double f" and "0 < f" and "0 < ef" and "0 < sigma" and "0 < f - sigma * ef"
  shows "fle (dm_upper (convert_params x y f ex ey ef sigma)) (dm (convert_params x y f ex ey ef sigma)) \<and>
         fle (dm (convert_params x y f ex ey ef sigma)) (dm_lower (convert_params x y f ex ey ef sigma)) \<and>
         spec_mag_diff (f + sigma * ef) < spec_mag_diff f \<and>
         spec_mag_diff f < spec_mag_diff (f - sigma * ef) \<and>
         spec_mag_diff f - spec_mag_diff (f + sigma * ef)
           < spec_mag_diff (f - sigma * ef) - spec_mag_diff f \<and>
         (pow2 (- 1022) \<le> f \<and> f \<le> pow2 1022 \<longrightarrow>
            (\<exists>u m. dm_upper (convert_params x y f ex ey ef sigma) = Inr u \<and>
                   dm (convert_params x y f ex ey ef sigma) = Inr m \<and>
                   \<bar>u - spec_mag_diff (f + sigma * ef)\<bar> \<le> pow2 (- 39) \<and>
                   \<bar>m - spec_mag_diff f\<bar> \<le> pow2 (- 39))) \<and>
         (pow2 (- 1022) \<le> f \<and> f \<le> pow2 1022 \<and> 2 * (sigma * ef) \<le> f \<longrightarrow>
            (\<exists>l. dm_lower (convert_params x y f ex ey ef sigma) = Inr l \<and>
                 \<bar>l - spec_mag_diff (f - sigma * ef)\<bar> \<le> pow2 (- 39)))"
proof -
  have d: "0 < sigma * ef" using assms(3,4) by simp
  have lt: "sigma * ef < f" using assms(5) by simp
  have ord: "fle (dm_upper (convert_params x y f ex ey ef sigma)) (dm (convert_params x y f ex ey ef sigma)) \<and>
         fle (dm (convert_params x y f ex ey ef sigma)) (dm_lower (convert_params x y f ex ey ef sigma))"
    using assms(1-4) lt by (rule bounds_order_double)
  have s1: "spec_mag_diff (f + sigma * ef) < spec_mag_diff f"
    using assms(2) d by (intro spec_mag_diff_strict) simp_all
  have s2: "spec_mag_diff f < spec_mag_diff (f - sigma * ef)"
    using assms(5) d by (intro spec_mag_diff_strict) simp_all
  have s3: "spec_mag_diff f - spec_mag_diff (f + sigma * ef)
           < spec_mag_diff (f - sigma * ef) - spec_mag_diff f"
    using d lt by (rule spec_bracket_asym)
  have c1: "\<exists>u m. dm_upper (convert_params x y f ex ey ef sigma) = Inr u \<and>
                   dm (convert_params x y f ex ey ef sigma) = Inr m \<and>
                   \<bar>u - spec_mag_diff (f + sigma * ef)\<bar> \<le> pow2 (- 39) \<and>
                   \<bar>m - spec_mag_diff f\<bar> \<le> pow2 (- 39)"
    if r: "pow2 (- 1022) \<le> f \<and> f \<le> pow2 1022"
  proof -
    from r have r1: "pow2 (- 1022) \<le> f" and r2: "f \<le> pow2 1022" by simp_all
    obtain u where u: "dm_upper (convert_params x y f ex ey ef sigma) = Inr u"
        "\<bar>u - spec_mag_diff (f + sigma * ef)\<bar> \<le> pow2 (- 39)"
      using dm_upper_close [OF assms(1) r1 r2 assms(3,4) lt] by blast
    obtain m where m: "dm (convert_params x y f ex ey ef sigma) = Inr m"
        "\<bar>m - spec_mag_diff f\<bar> \<le> pow2 (- 40)"
      using dm_finite [OF r1 r2] by blast
    have "pow2 (- 40) \<le> pow2 (- 39)" by simp
    with m(2) have "\<bar>m - spec_mag_diff f\<bar> \<le> pow2 (- 39)" by linarith
    with u m(1) show ?thesis by blast
  qed
  have c2: "\<exists>l. dm_lower (convert_params x y f ex ey ef sigma) = Inr l \<and>
                 \<bar>l - spec_mag_diff (f - sigma * ef)\<bar> \<le> pow2 (- 39)"
    if r: "pow2 (- 1022) \<le> f \<and> f \<le> pow2 1022 \<and> 2 * (sigma * ef) \<le> f"
  proof -
    from r have r1: "pow2 (- 1022) \<le> f" and r2: "f \<le> pow2 1022"
      and r3: "2 * (sigma * ef) \<le> f" by simp_all
    show ?thesis using assms(1) r1 r2 assms(3,4) r3 by (rule dm_lower_close)
  qed
  from ord s1 s2 s3 c1 c2 show ?thesis by blast
qed

theorem mag_bounds_bracket_witness:
  "is_double 1 \<and> (0::real) < 1 \<and> (0::real) < 1 / 2 \<and> (0::real) < 1 - 1 * (1 / 2) \<and>
   pow2 (- 1022) \<le> 1 \<and> 1 \<le> pow2 1022 \<and> 2 * (1 * (1 / 2)) \<le> (1::real) \<and>
   fle (dm_upper (convert_params 0 1 1 0 0 (1 / 2) 1)) (dm (convert_params 0 1 1 0 0 (1 / 2) 1)) \<and>
   fle (dm (convert_params 0 1 1 0 0 (1 / 2) 1)) (dm_lower (convert_params 0 1 1 0 0 (1 / 2) 1)) \<and>
   spec_mag_diff (1 + 1 * (1 / 2)) < spec_mag_diff 1 \<and>
   spec_mag_diff 1 < spec_mag_diff (1 - 1 * (1 / 2)) \<and>
   spec_mag_diff 1 - spec_mag_diff (1 + 1 * (1 / 2))
     < spec_mag_diff (1 - 1 * (1 / 2)) - spec_mag_diff 1 \<and>
   (\<exists>u m. dm_upper (convert_params 0 1 1 0 0 (1 / 2) 1) = Inr u \<and>
          dm (convert_params 0 1 1 0 0 (1 / 2) 1) = Inr m \<and>
          \<bar>u - spec_mag_diff (1 + 1 * (1 / 2))\<bar> \<le> pow2 (- 39) \<and>
          \<bar>m - spec_mag_diff 1\<bar> \<le> pow2 (- 39)) \<and>
   (\<exists>l. dm_lower (convert_params 0 1 1 0 0 (1 / 2) 1) = Inr l \<and>
        \<bar>l - spec_mag_diff (1 - 1 * (1 / 2))\<bar> \<le> pow2 (- 39))"
proof -
  have d1: "is_double 1" by (simp add: is_double_def)
  have o: "(0::real) < 1" "(0::real) < 1 / 2" "(0::real) < 1 - 1 * (1 / 2)" by simp_all
  have r: "pow2 (- 1022) \<le> 1" "1 \<le> pow2 1022" "2 * (1 * (1 / 2)) \<le> (1::real)"
    by (simp_all add: pow2_le_one pow2_numeral)
  from mag_bounds_bracket [OF d1 o(1) o(2) o(1) o(3), of 0 1 0 0] d1 o r show ?thesis by blast
qed

end
